theory Spec2Isabelle
  imports Complex_Main "HOL-Library.AList" "HOL-Library.Log_Nat"
begin

chapter \<open>Geocoin Carrier: caches, mementos and persistence\<close>

text \<open>
  A shallow embedding of \<^verbatim>\<open>src/main.ts\<close>: the cell grid, the cache registry with its
  memento strings, the marker registry, collect and deposit, and the three records kept in
  the browser's local storage.

  Conventions of the embedding.
  \<^item> The module-level variables of \<^verbatim>\<open>main.ts\<close> are the fields of one record \<open>game\<close>, and
    every function that mutates them takes the record and returns the new one.
  \<^item> JavaScript objects that are compared or mutated through a reference (coins, caches,
    map rectangles) live in an explicit store: an address is a natural number, and
    \<open>nextRef\<close> is the next free address.
  \<^item> An exception is a value \<open>Inl e\<close> of the result type \<open>error + game\<close>.
  \<^item> A JavaScript number is a \<open>rat\<close>, every double being a rational number, and the
    arithmetic is that of IEEE doubles: in \<^verbatim>\<open>getVisibleCells\<close> the two quotients,
    \<^verbatim>\<open>offset - NEIGHBORHOOD_SIZE\<close>, \<^verbatim>\<open>offset + NEIGHBORHOOD_SIZE\<close>, \<^verbatim>\<open>i++\<close> and \<^verbatim>\<open>j++\<close>, and in
    \<^verbatim>\<open>generateCoins\<close> the product and the sum of \<^verbatim>\<open>luck(...) * 3 + 1\<close>, each round their
    exact result to the nearest double. A decimal literal, and a latitude or longitude read
    from the storage, is the double nearest to the decimal. The fields of a \<^verbatim>\<open>Cell\<close> and
    the serial of a coin are \<open>int\<close>: the program only puts integers there, and they are
    written and read exactly.
  \<^item> A call that does not return (a loop of \<^verbatim>\<open>getVisibleCells\<close> whose counter no longer
    advances) has the value \<open>None\<close>, and is \<open>Inl NoReturn\<close> in its callers.
  \<^item> \<^verbatim>\<open>JSON.stringify\<close> and \<^verbatim>\<open>JSON.parse\<close> are modelled on the text: a printer and a
    recursive-descent parser over \<open>string\<close>.
  \<^item> \<^verbatim>\<open>luck\<close> (the file \<^verbatim>\<open>luck.ts\<close>) is a parameter \<open>luck :: string \<Rightarrow> rat\<close> of every
    function that calls it.
  \<^item> The map view, the player marker, the status panel and the popups' DOM are not
    modelled; of a rectangle only its identity, its presence on the map and the cache its
    popup closes over are kept.
\<close>

section \<open>Numbers\<close>

text \<open>
  The doubles, within the rationals. \<open>round_double x\<close> is the double nearest to \<open>x\<close>, the
  one with the even significand when two are equally near: with \<open>e\<close> the exponent of \<open>x\<close>
  (\<open>2\<^sup>e \<le> \<bar>x\<bar> < 2\<^sup>e\<^sup>+\<^sup>1\<close>, and \<open>- 1022\<close> for the subnormal numbers below), the doubles around \<open>x\<close>
  are the multiples of \<open>2\<^sup>e\<^sup>-\<^sup>5\<^sup>2\<close>. The exponent has no upper limit here: JavaScript replaces
  a result beyond \<open>1.8 * 10\<^sup>3\<^sup>0\<^sup>8\<close> by \<^verbatim>\<open>Infinity\<close>, which the program never computes with
  except in \<^verbatim>\<open>getVisibleCells\<close>, where \<^verbatim>\<open>Infinity\<close> and a number that large give the same
  empty window.
\<close>

definition round_half_even :: "rat \<Rightarrow> int" where
  "round_half_even q =
     (let n = \<lfloor>q\<rfloor>; r = q - of_int n
      in if r < 1 / 2 then n else if 1 / 2 < r then n + 1 else if even n then n else n + 1)"

definition exponent :: "rat \<Rightarrow> int" where
  "exponent x =
     (let (p, q) = quotient_of \<bar>x\<bar>; e = bitlen p - bitlen q
      in if 2 powi e \<le> \<bar>x\<bar> then e else e - 1)"

definition ulp :: "rat \<Rightarrow> rat" where
  "ulp x = 2 powi (max (exponent x) (- 1022) - 52)"

definition round_double :: "rat \<Rightarrow> rat" where
  "round_double x = of_int (round_half_even (x / ulp x)) * ulp x"

text \<open>The operators of JavaScript on numbers.\<close>

definition js_plus :: "rat \<Rightarrow> rat \<Rightarrow> rat" where
  "js_plus x y = round_double (x + y)"

definition js_minus :: "rat \<Rightarrow> rat \<Rightarrow> rat" where
  "js_minus x y = round_double (x - y)"

definition js_times :: "rat \<Rightarrow> rat \<Rightarrow> rat" where
  "js_times x y = round_double (x * y)"

definition js_divide :: "rat \<Rightarrow> rat \<Rightarrow> rat" where
  "js_divide x y = round_double (x / y)"

section \<open>Numbers as text\<close>

text \<open>
  \<^verbatim>\<open>Number.prototype.toString\<close> on an integer: its decimal digits, with a leading minus
  sign. (JavaScript switches to exponent notation from \<open>10\<^sup>2\<^sup>1\<close> on; cell indices are far
  below.)
\<close>

definition digit_char :: "nat \<Rightarrow> char" where
  "digit_char d = ''0123456789'' ! d"

definition is_digit :: "char \<Rightarrow> bool" where
  "is_digit c = (48 \<le> (of_char c :: nat) \<and> (of_char c :: nat) \<le> 57)"

definition digit_val :: "char \<Rightarrow> nat" where
  "digit_val c = of_char c - 48"

function show_nat :: "nat \<Rightarrow> string" where
  "show_nat n = (if n < 10 then [digit_char n] else show_nat (n div 10) @ [digit_char (n mod 10)])"
  by pat_completeness auto
termination by (relation "measure id") auto

declare show_nat.simps [simp del]

definition show_int :: "int \<Rightarrow> string" where
  "show_int n = (if n < 0 then CHR ''-'' # show_nat (nat (- n)) else show_nat (nat n))"

text \<open>
  A number that is not an integer is written with its exact decimal expansion (every
  double has a finite one, of at most 1074 fractional digits). JavaScript prints the
  shortest digit string that reads back as the same double instead; both are JSON texts
  of the same number.
\<close>

fun frac_digits :: "nat \<Rightarrow> rat \<Rightarrow> string" where
  "frac_digits 0 f = []"
| "frac_digits (Suc k) f =
     (if f = 0 then []
      else (let d = nat \<lfloor>f * 10\<rfloor> in digit_char d # frac_digits k (f * 10 - of_nat d)))"

definition show_unsigned :: "rat \<Rightarrow> string" where
  "show_unsigned r =
     (let n = nat \<lfloor>r\<rfloor>; f = r - of_nat n
      in show_nat n @ (if f = 0 then [] else CHR ''.'' # frac_digits 1074 f))"

definition show_number :: "rat \<Rightarrow> string" where
  "show_number r = (if r < 0 then CHR ''-'' # show_unsigned (- r) else show_unsigned r)"

definition digits_val :: "string \<Rightarrow> nat" where
  "digits_val ds = foldl (\<lambda>a c. 10 * a + digit_val c) 0 ds"

text \<open>\<^verbatim>\<open>Array.prototype.toString\<close>: the elements joined by commas.\<close>

fun array_toString :: "string list \<Rightarrow> string" where
  "array_toString [] = []"
| "array_toString [x] = x"
| "array_toString (x # y # ys) = x @ CHR '','' # array_toString (y # ys)"

section \<open>JSON text\<close>

datatype json =
    JNull
  | JBool bool
  | JNum rat
  | JStr string
  | JArr "json list"
  | JObj "(string \<times> json) list"

definition dquote :: char where
  "dquote = CHR 0x22"

definition backslash :: char where
  "backslash = CHR 0x5C"

definition hex_char :: "nat \<Rightarrow> char" where
  "hex_char d = ''0123456789abcdef'' ! d"

subsection \<open>\<^verbatim>\<open>JSON.stringify\<close>\<close>

definition escape_char :: "char \<Rightarrow> string" where
  "escape_char c =
     (if c = dquote then [backslash, dquote]
      else if c = backslash then [backslash, backslash]
      else if c = CHR 0x08 then [backslash, CHR ''b'']
      else if c = CHR 0x0C then [backslash, CHR ''f'']
      else if c = CHR 0x0A then [backslash, CHR ''n'']
      else if c = CHR 0x0D then [backslash, CHR ''r'']
      else if c = CHR 0x09 then [backslash, CHR ''t'']
      else if (of_char c :: nat) < 32
        then [backslash, CHR ''u'', CHR ''0'', CHR ''0'',
              hex_char (of_char c div 16), hex_char (of_char c mod 16)]
      else [c])"

definition quote :: "string \<Rightarrow> string" where
  "quote s = dquote # concat (map escape_char s) @ [dquote]"

fun stringify :: "json \<Rightarrow> string"
and stringify_elements :: "json list \<Rightarrow> string"
and stringify_members :: "(string \<times> json) list \<Rightarrow> string" where
  "stringify JNull = ''null''"
| "stringify (JBool b) = (if b then ''true'' else ''false'')"
| "stringify (JNum r) = show_number r"
| "stringify (JStr s) = quote s"
| "stringify (JArr vs) = CHR ''['' # stringify_elements vs @ '']''"
| "stringify (JObj ms) = CHR ''{'' # stringify_members ms @ ''}''"
| "stringify_elements [] = []"
| "stringify_elements [v] = stringify v"
| "stringify_elements (v # w # vs) = stringify v @ CHR '','' # stringify_elements (w # vs)"
| "stringify_members [] = []"
| "stringify_members [(k, v)] = quote k @ CHR '':'' # stringify v"
| "stringify_members ((k, v) # m # ms) =
     quote k @ CHR '':'' # stringify v @ CHR '','' # stringify_members (m # ms)"

subsection \<open>\<^verbatim>\<open>JSON.parse\<close>\<close>

text \<open>
  The grammar of RFC 8259 over byte strings: white space between tokens, the three
  literals, numbers with fraction and exponent, strings with the two-character escapes
  and \<^verbatim>\<open>\u00XX\<close> (a \<open>char\<close> is a byte, so an escape above code 255 is refused), arrays
  and objects. \<open>None\<close> is the \<^verbatim>\<open>SyntaxError\<close> of JavaScript. The recursion is on a
  counter that \<open>JSON_parse\<close> starts at the length of the text: every level of nesting
  and every further element consumes at least one character.
\<close>

definition is_ws :: "char \<Rightarrow> bool" where
  "is_ws c = (c = CHR '' '' \<or> c = CHR 0x09 \<or> c = CHR 0x0A \<or> c = CHR 0x0D)"

definition skip_ws :: "string \<Rightarrow> string" where
  "skip_ws s = dropWhile is_ws s"

definition hex_val :: "char \<Rightarrow> nat option" where
  "hex_val c =
     (let n = (of_char c :: nat)
      in if 48 \<le> n \<and> n \<le> 57 then Some (n - 48)
         else if 97 \<le> n \<and> n \<le> 102 then Some (n - 87)
         else if 65 \<le> n \<and> n \<le> 70 then Some (n - 55)
         else None)"

definition unescape :: "char \<Rightarrow> char option" where
  "unescape e =
     (if e = dquote then Some dquote
      else if e = backslash then Some backslash
      else if e = CHR ''/'' then Some (CHR ''/'')
      else if e = CHR ''b'' then Some (CHR 0x08)
      else if e = CHR ''f'' then Some (CHR 0x0C)
      else if e = CHR ''n'' then Some (CHR 0x0A)
      else if e = CHR ''r'' then Some (CHR 0x0D)
      else if e = CHR ''t'' then Some (CHR 0x09)
      else None)"

definition unicode_escape :: "char \<Rightarrow> char \<Rightarrow> char \<Rightarrow> char \<Rightarrow> char option" where
  "unicode_escape a b c d =
     (case (hex_val a, hex_val b, hex_val c, hex_val d) of
        (Some 0, Some 0, Some h, Some l) \<Rightarrow> Some (char_of (16 * h + l))
      | _ \<Rightarrow> None)"

fun parse_chars :: "string \<Rightarrow> (string \<times> string) option" where
  "parse_chars [] = None"
| "parse_chars (c # cs) =
     (if c = dquote then Some ([], cs)
      else if c = backslash then
        (case cs of
           [] \<Rightarrow> None
         | e # es \<Rightarrow>
             if e = CHR ''u'' then
               (case es of
                  a # b # c' # d # rest \<Rightarrow>
                    (case unicode_escape a b c' d of
                       None \<Rightarrow> None
                     | Some x \<Rightarrow> map_option (apfst ((#) x)) (parse_chars rest))
                | _ \<Rightarrow> None)
             else
               (case unescape e of
                  None \<Rightarrow> None
                | Some x \<Rightarrow> map_option (apfst ((#) x)) (parse_chars es)))
      else if (of_char c :: nat) < 32 then None
      else map_option (apfst ((#) c)) (parse_chars cs))"

definition parse_fraction :: "string \<Rightarrow> (rat \<times> string) option" where
  "parse_fraction s =
     (case s of
        [] \<Rightarrow> Some (0, s)
      | c # cs \<Rightarrow>
          if c = CHR ''.'' then
            (let ds = takeWhile is_digit cs
             in if ds = [] then None
                else Some (of_nat (digits_val ds) / 10 ^ length ds, dropWhile is_digit cs))
          else Some (0, s))"

definition parse_exponent :: "string \<Rightarrow> (int \<times> string) option" where
  "parse_exponent s =
     (case s of
        [] \<Rightarrow> Some (0, s)
      | c # cs \<Rightarrow>
          if c = CHR ''e'' \<or> c = CHR ''E'' then
            (let (neg, t) =
                   (case cs of
                      [] \<Rightarrow> (False, cs)
                    | g # gs \<Rightarrow>
                        if g = CHR ''-'' then (True, gs)
                        else if g = CHR ''+'' then (False, gs)
                        else (False, cs));
                 ds = takeWhile is_digit t
             in if ds = [] then None
                else Some ((if neg then - int (digits_val ds) else int (digits_val ds)),
                           dropWhile is_digit t))
          else Some (0, s))"

definition scale10 :: "rat \<Rightarrow> int \<Rightarrow> rat" where
  "scale10 r e = (if 0 \<le> e then r * 10 ^ nat e else r / 10 ^ nat (- e))"

definition parse_number :: "string \<Rightarrow> (rat \<times> string) option" where
  "parse_number s =
     (let (neg, s1) =
            (case s of
               [] \<Rightarrow> (False, s)
             | c # cs \<Rightarrow> if c = CHR ''-'' then (True, cs) else (False, s));
          ds = takeWhile is_digit s1
      in if ds = [] \<or> (1 < length ds \<and> hd ds = CHR ''0'') then None
         else
           (case parse_fraction (dropWhile is_digit s1) of
              None \<Rightarrow> None
            | Some (f, s2) \<Rightarrow>
                (case parse_exponent s2 of
                   None \<Rightarrow> None
                 | Some (e, s3) \<Rightarrow>
                     Some (scale10 ((if neg then - 1 else 1) * (of_nat (digits_val ds) + f)) e, s3))))"

definition parse_literal :: "string \<Rightarrow> json \<Rightarrow> string \<Rightarrow> (json \<times> string) option" where
  "parse_literal w v s = (if take (length w) s = w then Some (v, drop (length w) s) else None)"

text \<open>A repeated key keeps its first position and takes its last value.\<close>

definition object_of_members :: "(string \<times> json) list \<Rightarrow> json" where
  "object_of_members ms = JObj (foldl (\<lambda>acc (k, v). AList.update k v acc) [] ms)"

fun parse_value :: "nat \<Rightarrow> string \<Rightarrow> (json \<times> string) option"
and parse_elements :: "nat \<Rightarrow> string \<Rightarrow> (json list \<times> string) option"
and parse_members :: "nat \<Rightarrow> string \<Rightarrow> ((string \<times> json) list \<times> string) option" where
  "parse_value 0 s = None"
| "parse_value (Suc n) s =
     (case skip_ws s of
        [] \<Rightarrow> None
      | c # cs \<Rightarrow>
          if c = CHR ''{'' then
            (case skip_ws cs of
               [] \<Rightarrow> None
             | d # ds \<Rightarrow>
                 if d = CHR ''}'' then Some (JObj [], ds)
                 else map_option (apfst object_of_members) (parse_members n cs))
          else if c = CHR ''['' then
            (case skip_ws cs of
               [] \<Rightarrow> None
             | d # ds \<Rightarrow>
                 if d = CHR '']'' then Some (JArr [], ds)
                 else map_option (apfst JArr) (parse_elements n cs))
          else if c = dquote then map_option (apfst JStr) (parse_chars cs)
          else if c = CHR ''t'' then parse_literal ''true'' (JBool True) (c # cs)
          else if c = CHR ''f'' then parse_literal ''false'' (JBool False) (c # cs)
          else if c = CHR ''n'' then parse_literal ''null'' JNull (c # cs)
          else map_option (apfst JNum) (parse_number (c # cs)))"
| "parse_elements 0 s = None"
| "parse_elements (Suc n) s =
     (case parse_value n s of
        None \<Rightarrow> None
      | Some (v, r) \<Rightarrow>
          (case skip_ws r of
             [] \<Rightarrow> None
           | c # cs \<Rightarrow>
               if c = CHR '','' then map_option (apfst ((#) v)) (parse_elements n cs)
               else if c = CHR '']'' then Some ([v], cs)
               else None))"
| "parse_members 0 s = None"
| "parse_members (Suc n) s =
     (case skip_ws s of
        [] \<Rightarrow> None
      | q # qs \<Rightarrow>
          if q \<noteq> dquote then None
          else
            (case parse_chars qs of
               None \<Rightarrow> None
             | Some (k, r) \<Rightarrow>
                 (case skip_ws r of
                    [] \<Rightarrow> None
                  | c # cs \<Rightarrow>
                      if c \<noteq> CHR '':'' then None
                      else
                        (case parse_value n cs of
                           None \<Rightarrow> None
                         | Some (v, r') \<Rightarrow>
                             (case skip_ws r' of
                                [] \<Rightarrow> None
                              | d # ds \<Rightarrow>
                                  if d = CHR '','' then
                                    map_option (apfst ((#) (k, v))) (parse_members n ds)
                                  else if d = CHR ''}'' then Some ([(k, v)], ds)
                                  else None)))))"

definition JSON_parse :: "string \<Rightarrow> json option" where
  "JSON_parse s =
     (case parse_value (length s) s of
        None \<Rightarrow> None
      | Some (v, r) \<Rightarrow> if skip_ws r = [] then Some v else None)"

section \<open>Data model\<close>

text \<open>
  The interfaces \<^verbatim>\<open>Cell\<close>, \<^verbatim>\<open>Coin\<close> and \<^verbatim>\<open>Cache\<close> of \<^verbatim>\<open>main.ts\<close>, as values. The
  fields \<^verbatim>\<open>i\<close> and \<^verbatim>\<open>j\<close> are \<open>cell_i\<close> and \<open>cell_j\<close>, and the fields of the other
  two records carry the record's name, since a field name is a constant of the theory.
\<close>

record Cell =
  cell_i :: int
  cell_j :: int

record Coin =
  coin_cell :: Cell
  coin_serial :: int

record Cache =
  cache_cell :: Cell
  cache_coins :: "Coin list"

record LatLng =
  lat :: rat
  lng :: rat

text \<open>
  At run time a \<^verbatim>\<open>Cache\<close> is an object whose \<^verbatim>\<open>coins\<close> array holds references to
  \<^verbatim>\<open>Coin\<close> objects; \<^verbatim>\<open>indexOf\<close> compares those references. A \<^verbatim>\<open>Cell\<close> object is
  never mutated nor compared by reference, and is kept by value.
\<close>

type_synonym ref = nat

record CacheObject =
  cell_of :: Cell
  coin_refs :: "ref list"

text \<open>
  \<open>SyntaxError\<close> is thrown by \<^verbatim>\<open>JSON.parse\<close>, \<open>TypeError\<close> by a property read on
  \<^verbatim>\<open>undefined\<close> or a call of something that is no function. \<open>IllTyped\<close> is not an
  exception of JavaScript: it marks a parsed value that does not have the TypeScript type
  the program casts it to; what the program does with such a value is not followed.
  \<open>NoReturn\<close> is no exception either: the call runs forever.
\<close>

datatype error = SyntaxError | TypeError | IllTyped | NoReturn

text \<open>
  The module-level state (lines 21--95): the player's location, inventory and movement
  history, the cache registry \<^verbatim>\<open>caches\<close> and the marker registry \<^verbatim>\<open>cacheMarkers\<close>
  (JavaScript \<^verbatim>\<open>Map\<close>s, in insertion order), the browser's \<^verbatim>\<open>localStorage\<close>, and the
  store of objects: coins, caches, for every rectangle the cache its popup closes over,
  and the rectangles that are on the map.
\<close>

record game =
  playerLocation :: LatLng
  playerInventory :: "ref list"
  playerMovementHistory :: "LatLng list"
  caches :: "(string \<times> string) list"
  cacheMarkers :: "(string \<times> ref) list"
  localStorage :: "string \<rightharpoonup> string"
  coinHeap :: "ref \<Rightarrow> Coin"
  cacheHeap :: "ref \<Rightarrow> CacheObject"
  popupCache :: "ref \<Rightarrow> ref"
  mapLayers :: "ref list"
  nextRef :: ref

text \<open>
  The constants of lines 21--35. The literals \<^verbatim>\<open>36.98949379578401\<close>,
  \<^verbatim>\<open>-122.06277128548504\<close>, \<^verbatim>\<open>1e-4\<close> and \<^verbatim>\<open>0.1\<close> are the doubles nearest to these decimals.
\<close>

definition initialPlayerLocation :: LatLng where
  "initialPlayerLocation =
     \<lparr>lat = round_double 36.98949379578401, lng = round_double (- 122.06277128548504)\<rparr>"

definition TILE_DEGREES :: rat where
  "TILE_DEGREES = round_double (1 / 10000)"

definition NEIGHBORHOOD_SIZE :: int where
  "NEIGHBORHOOD_SIZE = 8"

definition CACHE_SPAWN_PROBABILITY :: rat where
  "CACHE_SPAWN_PROBABILITY = round_double (1 / 10)"

section \<open>Cell keys and mementos\<close>

definition cellToString :: "Cell \<Rightarrow> string" where
  "cellToString cell = array_toString [show_int (cell_i cell), show_int (cell_j cell)]"

text \<open>The JSON values of the program's objects, with the keys in the order of creation.\<close>

definition cell_json :: "Cell \<Rightarrow> json" where
  "cell_json cell =
     JObj [(''i'', JNum (of_int (cell_i cell))), (''j'', JNum (of_int (cell_j cell)))]"

definition coin_json :: "Coin \<Rightarrow> json" where
  "coin_json coin =
     JObj [(''cell'', cell_json (coin_cell coin)), (''serial'', JNum (of_int (coin_serial coin)))]"

definition cache_json :: "Cache \<Rightarrow> json" where
  "cache_json cache =
     JObj [(''cell'', cell_json (cache_cell cache)),
           (''coins'', JArr (map coin_json (cache_coins cache)))]"

definition latlng_json :: "LatLng \<Rightarrow> json" where
  "latlng_json p = JObj [(''lat'', JNum (lat p)), (''lng'', JNum (lng p))]"

text \<open>
  The casts of a parsed value to \<^verbatim>\<open>Cache\<close>, \<^verbatim>\<open>Coin\<close>, \<^verbatim>\<open>[string, string]\<close> and
  \<^verbatim>\<open>LatLng\<close>. TypeScript checks nothing at run time; the embedding follows a value that has
  the shape the program itself writes, and stops with \<open>IllTyped\<close> at any other.
  \<^verbatim>\<open>JSON.parse\<close> reads a number text as the double nearest to it: a latitude or longitude
  is rounded here, an integer is taken as it is.
\<close>

definition is_integer :: "rat \<Rightarrow> bool" where
  "is_integer r = (r = of_int \<lfloor>r\<rfloor>)"

definition json_int :: "json \<Rightarrow> int option" where
  "json_int v = (case v of JNum r \<Rightarrow> if is_integer r then Some \<lfloor>r\<rfloor> else None | _ \<Rightarrow> None)"

definition json_cell :: "json \<Rightarrow> Cell option" where
  "json_cell v =
     (case v of
        JObj [(k1, a), (k2, b)] \<Rightarrow>
          (case (json_int a, json_int b) of
             (Some x, Some y) \<Rightarrow>
               if k1 = ''i'' \<and> k2 = ''j'' then Some \<lparr>cell_i = x, cell_j = y\<rparr> else None
           | _ \<Rightarrow> None)
      | _ \<Rightarrow> None)"

definition json_coin :: "json \<Rightarrow> Coin option" where
  "json_coin v =
     (case v of
        JObj [(k1, a), (k2, b)] \<Rightarrow>
          (case (json_cell a, json_int b) of
             (Some c, Some s) \<Rightarrow>
               if k1 = ''cell'' \<and> k2 = ''serial'' then Some \<lparr>coin_cell = c, coin_serial = s\<rparr>
               else None
           | _ \<Rightarrow> None)
      | _ \<Rightarrow> None)"

fun json_list :: "(json \<Rightarrow> 'a option) \<Rightarrow> json list \<Rightarrow> 'a list option" where
  "json_list f [] = Some []"
| "json_list f (v # vs) =
     (case f v of
        None \<Rightarrow> None
      | Some x \<Rightarrow> (case json_list f vs of None \<Rightarrow> None | Some xs \<Rightarrow> Some (x # xs)))"

definition json_cache :: "json \<Rightarrow> Cache option" where
  "json_cache v =
     (case v of
        JObj [(k1, a), (k2, JArr cs)] \<Rightarrow>
          (case (json_cell a, json_list json_coin cs) of
             (Some c, Some coins) \<Rightarrow>
               if k1 = ''cell'' \<and> k2 = ''coins'' then Some \<lparr>cache_cell = c, cache_coins = coins\<rparr>
               else None
           | _ \<Rightarrow> None)
      | _ \<Rightarrow> None)"

definition json_latlng :: "json \<Rightarrow> LatLng option" where
  "json_latlng v =
     (case v of
        JObj [(k1, JNum a), (k2, JNum b)] \<Rightarrow>
          if k1 = ''lat'' \<and> k2 = ''lng''
          then Some \<lparr>lat = round_double a, lng = round_double b\<rparr> else None
      | _ \<Rightarrow> None)"

definition json_entry :: "json \<Rightarrow> (string \<times> string) option" where
  "json_entry v = (case v of JArr (JStr k # JStr m # _) \<Rightarrow> Some (k, m) | _ \<Rightarrow> None)"

text \<open>\<^verbatim>\<open>toMomento\<close> (line 293) and \<^verbatim>\<open>fromMomento\<close> (line 298).\<close>

definition toMomento :: "Cache \<Rightarrow> string" where
  "toMomento cache = stringify (cache_json cache)"

definition fromMomento :: "string \<Rightarrow> error + Cache" where
  "fromMomento momento =
     (case JSON_parse momento of
        None \<Rightarrow> Inl SyntaxError
      | Some v \<Rightarrow> (case json_cache v of None \<Rightarrow> Inl IllTyped | Some cache \<Rightarrow> Inr cache))"

section \<open>Objects\<close>

text \<open>The value of a cache object: what \<^verbatim>\<open>JSON.stringify\<close> sees of it.\<close>

definition readCache :: "game \<Rightarrow> ref \<Rightarrow> Cache" where
  "readCache st cache =
     \<lparr>cache_cell = cell_of (cacheHeap st cache),
      cache_coins = map (coinHeap st) (coin_refs (cacheHeap st cache))\<rparr>"

text \<open>An object literal, and the objects \<^verbatim>\<open>JSON.parse\<close> builds, are fresh.\<close>

definition newCoin :: "Coin \<Rightarrow> game \<Rightarrow> ref \<times> game" where
  "newCoin coin st =
     (nextRef st, st\<lparr>coinHeap := (coinHeap st)(nextRef st := coin), nextRef := Suc (nextRef st)\<rparr>)"

fun newCoins :: "Coin list \<Rightarrow> game \<Rightarrow> ref list \<times> game" where
  "newCoins [] st = ([], st)"
| "newCoins (coin # coins) st =
     (let (r, st1) = newCoin coin st; (rs, st2) = newCoins coins st1 in (r # rs, st2))"

definition newCacheObject :: "CacheObject \<Rightarrow> game \<Rightarrow> ref \<times> game" where
  "newCacheObject obj st =
     (nextRef st, st\<lparr>cacheHeap := (cacheHeap st)(nextRef st := obj), nextRef := Suc (nextRef st)\<rparr>)"

definition newCache :: "Cache \<Rightarrow> game \<Rightarrow> ref \<times> game" where
  "newCache c st =
     (let (rs, st1) = newCoins (cache_coins c) st
      in newCacheObject \<lparr>cell_of = cache_cell c, coin_refs = rs\<rparr> st1)"

definition pushCoin :: "ref \<Rightarrow> ref \<Rightarrow> game \<Rightarrow> game" where
  "pushCoin cache coin st =
     st\<lparr>cacheHeap := (cacheHeap st)
          (cache := (cacheHeap st cache)\<lparr>coin_refs := coin_refs (cacheHeap st cache) @ [coin]\<rparr>)\<rparr>"

section \<open>Local storage\<close>

text \<open>\<^verbatim>\<open>saveCaches\<close>, \<^verbatim>\<open>saveInventory\<close>, \<^verbatim>\<open>savePlayerLocation\<close> (lines 219--234).\<close>

definition saveCaches :: "game \<Rightarrow> game" where
  "saveCaches st =
     st\<lparr>localStorage := (localStorage st)
          (''caches'' \<mapsto> stringify (JArr (map (\<lambda>(k, m). JArr [JStr k, JStr m]) (caches st))))\<rparr>"

definition saveInventory :: "game \<Rightarrow> game" where
  "saveInventory st =
     st\<lparr>localStorage := (localStorage st)
          (''inventory'' \<mapsto>
             stringify (JArr (map (\<lambda>r. coin_json (coinHeap st r)) (playerInventory st))))\<rparr>"

definition savePlayerLocation :: "game \<Rightarrow> game" where
  "savePlayerLocation st =
     st\<lparr>localStorage := (localStorage st)
          (''playerLocation'' \<mapsto> stringify (JArr (map latlng_json (playerMovementHistory st))))\<rparr>"

text \<open>
  \<^verbatim>\<open>loadLocalStorage\<close> (line 237), one definition for each of its three blocks. A record
  that is \<^verbatim>\<open>null\<close> or the empty string is falsy and skipped. \<^verbatim>\<open>JSON.parse\<close> is not
  guarded. A parsed value that is no array has no \<^verbatim>\<open>forEach\<close>; an empty history has no
  last element to read \<^verbatim>\<open>lat\<close> from.
\<close>

definition load_caches :: "game \<Rightarrow> error + game" where
  "load_caches st =
     (case localStorage st ''caches'' of
        None \<Rightarrow> Inr st
      | Some cacheData \<Rightarrow>
          if cacheData = [] then Inr st
          else
            (case JSON_parse cacheData of
               None \<Rightarrow> Inl SyntaxError
             | Some (JArr cacheArray) \<Rightarrow>
                 (case json_list json_entry cacheArray of
                    None \<Rightarrow> Inl IllTyped
                  | Some entries \<Rightarrow>
                      Inr (st\<lparr>caches :=
                             foldl (\<lambda>m (k, v). AList.update k v m) (caches st) entries\<rparr>))
             | Some _ \<Rightarrow> Inl TypeError))"

definition load_inventory :: "game \<Rightarrow> error + game" where
  "load_inventory st =
     (case localStorage st ''inventory'' of
        None \<Rightarrow> Inr st
      | Some inventoryData \<Rightarrow>
          if inventoryData = [] then Inr st
          else
            (case JSON_parse inventoryData of
               None \<Rightarrow> Inl SyntaxError
             | Some (JArr inventoryArray) \<Rightarrow>
                 (case json_list json_coin inventoryArray of
                    None \<Rightarrow> Inl IllTyped
                  | Some coins \<Rightarrow>
                      (let (rs, st1) = newCoins coins st
                       in Inr (st1\<lparr>playerInventory := playerInventory st1 @ rs\<rparr>)))
             | Some _ \<Rightarrow> Inl TypeError))"

definition load_playerLocation :: "game \<Rightarrow> error + game" where
  "load_playerLocation st =
     (case localStorage st ''playerLocation'' of
        None \<Rightarrow> Inr st
      | Some playerLocationData \<Rightarrow>
          if playerLocationData = [] then Inr st
          else
            (case JSON_parse playerLocationData of
               None \<Rightarrow> Inl SyntaxError
             | Some (JArr playerLocationArray) \<Rightarrow>
                 (case json_list json_latlng playerLocationArray of
                    None \<Rightarrow> Inl IllTyped
                  | Some points \<Rightarrow>
                      if points = [] then Inl TypeError
                      else Inr (st\<lparr>playerMovementHistory := points,
                                   playerLocation := last points\<rparr>))
             | Some _ \<Rightarrow> Inl IllTyped))"

definition loadLocalStorage :: "game \<Rightarrow> error + game" where
  "loadLocalStorage st =
     (case load_caches st of
        Inl e \<Rightarrow> Inl e
      | Inr st1 \<Rightarrow>
          (case load_inventory st1 of
             Inl e \<Rightarrow> Inl e
           | Inr st2 \<Rightarrow> load_playerLocation st2))"

definition loadDataFromLocalStorage :: "game \<Rightarrow> error + game" where
  "loadDataFromLocalStorage st = loadLocalStorage st"

text \<open>\<^verbatim>\<open>displayInventory\<close> (line 434): of its effects only \<^verbatim>\<open>saveInventory()\<close> is state.\<close>

definition displayInventory :: "game \<Rightarrow> game" where
  "displayInventory st = saveInventory st"

section \<open>Visible cells\<close>

text \<open>
  \<^verbatim>\<open>getVisibleCells\<close> (line 303): the inner and the outer loop, with their counters and
  bounds in doubles. \<^verbatim>\<open>Math.floor\<close> of a double is exact. The counters are doubles that are
  integers, and a cell records their values. From \<open>2\<^sup>5\<^sup>3\<close> on, \<^verbatim>\<open>i++\<close> may leave the counter
  where it is: then the loop does not end, and the value is \<open>None\<close>.
\<close>

partial_function (option) visible_row :: "rat \<Rightarrow> rat \<Rightarrow> rat \<Rightarrow> Cell list option" where
  "visible_row i j hi =
     (if j < hi
      then Option.bind (visible_row i (js_plus j 1) hi)
             (\<lambda>cells. Some (\<lparr>cell_i = \<lfloor>i\<rfloor>, cell_j = \<lfloor>j\<rfloor>\<rparr> # cells))
      else Some [])"

declare visible_row.simps [code]

partial_function (option) visible_rows :: "rat \<Rightarrow> rat \<Rightarrow> rat \<Rightarrow> rat \<Rightarrow> Cell list option" where
  "visible_rows i hi lo_j hi_j =
     (if i < hi
      then Option.bind (visible_row i lo_j hi_j)
             (\<lambda>row. Option.bind (visible_rows (js_plus i 1) hi lo_j hi_j)
                (\<lambda>rows. Some (row @ rows)))
      else Some [])"

declare visible_rows.simps [code]

definition getVisibleCells :: "LatLng \<Rightarrow> Cell list option" where
  "getVisibleCells coord =
     (let offset_i = of_int \<lfloor>js_divide (lat coord) TILE_DEGREES\<rfloor>;
          offset_j = of_int \<lfloor>js_divide (lng coord) TILE_DEGREES\<rfloor>
      in visible_rows (js_minus offset_i (of_int NEIGHBORHOOD_SIZE))
           (js_plus offset_i (of_int NEIGHBORHOOD_SIZE))
           (js_minus offset_j (of_int NEIGHBORHOOD_SIZE))
           (js_plus offset_j (of_int NEIGHBORHOOD_SIZE)))"

section \<open>Spawning and despawning caches\<close>

text \<open>
  \<^verbatim>\<open>generateCoins\<close> (line 399): \<^verbatim>\<open>Math.floor(luck(...) * 3 + 1)\<close>, the product and the sum
  in doubles. The loop counts from 0 to at most 3 for a \<^verbatim>\<open>luck\<close> in \<open>[0, 1)\<close>, and its
  counter is an \<open>int\<close>.
\<close>

function generateCoins_loop :: "Cell \<Rightarrow> ref \<Rightarrow> int \<Rightarrow> int \<Rightarrow> game \<Rightarrow> game" where
  "generateCoins_loop cell cache k numCoins st =
     (if k < numCoins then
        (let (coin, st1) = newCoin \<lparr>coin_cell = cell, coin_serial = k\<rparr> st
         in generateCoins_loop cell cache (k + 1) numCoins (pushCoin cache coin st1))
      else st)"
  by pat_completeness auto
termination
  by (relation "measure (\<lambda>(cell, cache, k, numCoins, st). nat (numCoins - k))") auto

declare generateCoins_loop.simps [simp del]

definition generateCoins :: "(string \<Rightarrow> rat) \<Rightarrow> Cell \<Rightarrow> ref \<Rightarrow> game \<Rightarrow> game" where
  "generateCoins luck cell cache st =
     (let numCoins =
            \<lfloor>js_plus
               (js_times
                  (luck (array_toString [show_int (cell_i cell), show_int (cell_j cell), ''numCoins'']))
                  3)
               1\<rfloor>
      in generateCoins_loop cell cache 0 numCoins st)"

text \<open>
  \<^verbatim>\<open>spawnCache\<close> (line 359), in its two halves. The first fetches or generates the
  cache: \<^verbatim>\<open>!caches.get(cellString)\<close> holds when the key is absent and when its memento
  is the empty string; a memento that is there is parsed, unguarded. The second half has
  no guard on \<^verbatim>\<open>cacheMarkers\<close>: it always makes a rectangle, adds it to the map, binds
  a popup over the cache, saves the registry and stores the rectangle under the cell's key.
\<close>

definition generateCache :: "(string \<Rightarrow> rat) \<Rightarrow> Cell \<Rightarrow> game \<Rightarrow> ref \<times> game" where
  "generateCache luck cell st =
     (let (cache, st1) = newCacheObject \<lparr>cell_of = cell, coin_refs = []\<rparr> st;
          st2 = generateCoins luck cell cache st1
      in (cache,
          st2\<lparr>caches :=
                AList.update (cellToString cell) (toMomento (readCache st2 cache)) (caches st2)\<rparr>))"

definition fetchCache :: "(string \<Rightarrow> rat) \<Rightarrow> Cell \<Rightarrow> game \<Rightarrow> error + ref \<times> game" where
  "fetchCache luck cell st =
     (case map_of (caches st) (cellToString cell) of
        None \<Rightarrow> Inr (generateCache luck cell st)
      | Some momento \<Rightarrow>
          if momento = [] then Inr (generateCache luck cell st)
          else
            (case fromMomento momento of
               Inl e \<Rightarrow> Inl e
             | Inr c \<Rightarrow> Inr (newCache c st)))"

definition addRectangle :: "Cell \<Rightarrow> ref \<Rightarrow> game \<Rightarrow> game" where
  "addRectangle cell cache st =
     (let rect = nextRef st;
          st1 = st\<lparr>nextRef := Suc rect, mapLayers := mapLayers st @ [rect],
                  popupCache := (popupCache st)(rect := cache)\<rparr>;
          st2 = saveCaches st1
      in st2\<lparr>cacheMarkers := AList.update (cellToString cell) rect (cacheMarkers st2)\<rparr>)"

definition spawnCache :: "(string \<Rightarrow> rat) \<Rightarrow> Cell \<Rightarrow> game \<Rightarrow> error + game" where
  "spawnCache luck cell st =
     (case fetchCache luck cell st of
        Inl e \<Rightarrow> Inl e
      | Inr (cache, st1) \<Rightarrow> Inr (addRectangle cell cache st1))"

text \<open>
  \<^verbatim>\<open>updateCaches\<close> (line 326): the call of \<^verbatim>\<open>getVisibleCells\<close>, the \<^verbatim>\<open>forEach\<close> that
  removes the markers out of sight, the filter that collects the new cells, and the loop
  that spawns them.
\<close>

fun despawn :: "(string \<times> ref) list \<Rightarrow> string list \<Rightarrow> game \<Rightarrow> game" where
  "despawn [] visibleCellsSet st = st"
| "despawn ((cellString, marker) # rest) visibleCellsSet st =
     despawn rest visibleCellsSet
       (if cellString \<notin> set visibleCellsSet
        then st\<lparr>mapLayers := removeAll marker (mapLayers st),
                cacheMarkers := AList.delete cellString (cacheMarkers st)\<rparr>
        else st)"

fun spawnCaches :: "(string \<Rightarrow> rat) \<Rightarrow> Cell list \<Rightarrow> game \<Rightarrow> error + game" where
  "spawnCaches luck [] st = Inr st"
| "spawnCaches luck (cell # newCells) st =
     (case spawnCache luck cell st of
        Inl e \<Rightarrow> Inl e
      | Inr st1 \<Rightarrow> spawnCaches luck newCells st1)"

definition newCells_of :: "(string \<Rightarrow> rat) \<Rightarrow> Cell list \<Rightarrow> game \<Rightarrow> Cell list" where
  "newCells_of luck visibleCells st =
     filter
       (\<lambda>cell. map_of (cacheMarkers st) (cellToString cell) = None \<and>
          luck (array_toString [show_int (cell_i cell), show_int (cell_j cell)])
            < CACHE_SPAWN_PROBABILITY)
       visibleCells"

definition updateCaches :: "(string \<Rightarrow> rat) \<Rightarrow> game \<Rightarrow> error + game" where
  "updateCaches luck st =
     (case getVisibleCells (playerLocation st) of
        None \<Rightarrow> Inl NoReturn
      | Some visibleCells \<Rightarrow>
          (let visibleCellsSet = map cellToString visibleCells;
               st1 = despawn (cacheMarkers st) visibleCellsSet st;
               newCells = newCells_of luck visibleCells st1
           in spawnCaches luck newCells st1))"

section \<open>Moving, collecting, depositing\<close>

text \<open>\<^verbatim>\<open>movePlayer\<close> (line 270).\<close>

definition movePlayer :: "(string \<Rightarrow> rat) \<Rightarrow> rat \<times> rat \<Rightarrow> game \<Rightarrow> error + game" where
  "movePlayer luck newPos st =
     (let st1 = st\<lparr>playerLocation := \<lparr>lat = fst newPos, lng = snd newPos\<rparr>\<rparr>;
          newLatLng = \<lparr>lat = fst newPos, lng = snd newPos\<rparr>;
          st2 = st1\<lparr>playerMovementHistory := playerMovementHistory st1 @ [newLatLng]\<rparr>
      in updateCaches luck (savePlayerLocation st2))"

text \<open>
  \<^verbatim>\<open>Array.prototype.indexOf\<close> (\<open>- 1\<close> when the element is absent; the elements are
  references here, so the comparison is by identity) and \<^verbatim>\<open>splice(index, 1)\<close>.
\<close>

fun indexOf :: "'a list \<Rightarrow> 'a \<Rightarrow> int" where
  "indexOf [] x = - 1"
| "indexOf (y # ys) x =
     (if y = x then 0 else (let r = indexOf ys x in if r = - 1 then - 1 else r + 1))"

definition splice1 :: "int \<Rightarrow> 'a list \<Rightarrow> 'a list" where
  "splice1 index xs = take (nat index) xs @ drop (nat index + 1) xs"

text \<open>\<^verbatim>\<open>collect\<close> (line 411): the push to the inventory comes first and is not guarded.\<close>

definition collect :: "ref \<Rightarrow> ref \<Rightarrow> game \<Rightarrow> game" where
  "collect coin cache st =
     (let st1 = st\<lparr>playerInventory := playerInventory st @ [coin]\<rparr>;
          coins = coin_refs (cacheHeap st1 cache);
          index = indexOf coins coin;
          st2 = (if index > - 1
                 then st1\<lparr>cacheHeap := (cacheHeap st1)
                        (cache := (cacheHeap st1 cache)\<lparr>coin_refs := splice1 index coins\<rparr>)\<rparr>
                 else st1);
          st3 = st2\<lparr>caches := AList.update (cellToString (cell_of (cacheHeap st2 cache)))
                                (toMomento (readCache st2 cache)) (caches st2)\<rparr>
      in displayInventory (saveCaches st3))"

text \<open>\<^verbatim>\<open>deposit\<close> (line 422).\<close>

function deposit_loop :: "ref \<Rightarrow> game \<Rightarrow> game" where
  "deposit_loop cache st =
     (if length (playerInventory st) > 0 then
        (let coin = last (playerInventory st);
             st1 = st\<lparr>playerInventory := butlast (playerInventory st)\<rparr>
         in deposit_loop cache (pushCoin cache coin st1))
      else st)"
  by pat_completeness auto
termination
  by (relation "measure (\<lambda>(cache, st). length (playerInventory st))") (auto simp: pushCoin_def)

declare deposit_loop.simps [simp del]

definition deposit :: "ref \<Rightarrow> game \<Rightarrow> game" where
  "deposit cache st =
     (let st1 = deposit_loop cache st;
          st2 = st1\<lparr>caches := AList.update (cellToString (cell_of (cacheHeap st1 cache)))
                                (toMomento (readCache st1 cache)) (caches st1)\<rparr>
      in displayInventory (saveCaches st2))"

section \<open>Initialisation and reset\<close>

text \<open>\<^verbatim>\<open>initializeUI\<close>, \<^verbatim>\<open>resetPlayerState\<close>, \<^verbatim>\<open>resetCaches\<close>, \<^verbatim>\<open>initGame\<close> (lines 164--208).\<close>

definition initializeUI :: "game \<Rightarrow> game" where
  "initializeUI st = st\<lparr>playerInventory := [], playerLocation := initialPlayerLocation\<rparr>"

definition resetPlayerState :: "LatLng \<Rightarrow> game \<Rightarrow> game" where
  "resetPlayerState startLocation st = st\<lparr>playerMovementHistory := [] @ [startLocation]\<rparr>"

definition resetCaches :: "game \<Rightarrow> game" where
  "resetCaches st =
     st\<lparr>caches := [],
        mapLayers := filter (\<lambda>r. r \<notin> snd ` set (cacheMarkers st)) (mapLayers st),
        cacheMarkers := []\<rparr>"

definition initGame :: "(string \<Rightarrow> rat) \<Rightarrow> game \<Rightarrow> error + game" where
  "initGame luck st =
     (case loadDataFromLocalStorage
             (resetCaches (resetPlayerState initialPlayerLocation (initializeUI st))) of
        Inl e \<Rightarrow> Inl e
      | Inr st1 \<Rightarrow>
          (case updateCaches luck st1 of
             Inl e \<Rightarrow> Inl e
           | Inr st2 \<Rightarrow> Inr (displayInventory st2)))"

text \<open>
  The click listener of \<^verbatim>\<open>#reset\<close> (line 150); \<open>confirmed\<close> is the answer of
  \<^verbatim>\<open>confirm("Reset the game?")\<close>.
\<close>

definition reset_click :: "(string \<Rightarrow> rat) \<Rightarrow> bool \<Rightarrow> game \<Rightarrow> error + game" where
  "reset_click luck confirmed st =
     (if \<not> confirmed then Inr st
      else initGame luck (st\<lparr>localStorage := Map.empty\<rparr>))"

text \<open>
  The state the module's initialisers build before the first \<^verbatim>\<open>initGame()\<close> of line 98,
  over the storage the browser kept. No object is allocated yet; the content of the store
  at a free address is never read.
\<close>

definition initial_globals :: "(string \<rightharpoonup> string) \<Rightarrow> game" where
  "initial_globals storage =
     \<lparr>playerLocation = initialPlayerLocation, playerInventory = [], playerMovementHistory = [],
      caches = [], cacheMarkers = [], localStorage = storage,
      coinHeap = (\<lambda>_. \<lparr>coin_cell = \<lparr>cell_i = 0, cell_j = 0\<rparr>, coin_serial = 0\<rparr>),
      cacheHeap = (\<lambda>_. \<lparr>cell_of = \<lparr>cell_i = 0, cell_j = 0\<rparr>, coin_refs = []\<rparr>),
      popupCache = (\<lambda>_. 0), mapLayers = [], nextRef = 0\<rparr>"

section \<open>Measures and an example state\<close>

text \<open>
  The quantity of the coin-conservation property: the coins of all caches of the
  registry, read from their mementos, plus the coins of the inventory.
\<close>

definition coinCount :: "string \<Rightarrow> nat" where
  "coinCount momento =
     (case fromMomento momento of Inl e \<Rightarrow> 0 | Inr c \<Rightarrow> length (cache_coins c))"

definition total_coins :: "game \<Rightarrow> nat" where
  "total_coins st =
     sum_list (map (\<lambda>(k, m). coinCount m) (caches st)) + length (playerInventory st)"

text \<open>The text \<open>saveInventory\<close> writes for an inventory of coins with these values.\<close>

definition inventory_text :: "Coin list \<Rightarrow> string" where
  "inventory_text coins = stringify (JArr (map coin_json coins))"

text \<open>
  A state with one spawned cache, for the cell \<open>(0, 0)\<close>: the cache object at address 0
  holds the coin objects 1 and 2 (serials 0 and 1), its rectangle is object 4. The coin
  object 3 is a second object with the fields of coin 1, and coin object 5 has serial 7;
  neither is in a cache or in the inventory.
\<close>

definition cell00 :: Cell where
  "cell00 = \<lparr>cell_i = 0, cell_j = 0\<rparr>"

definition example_game :: game where
  "example_game =
     \<lparr>playerLocation = \<lparr>lat = 0, lng = 0\<rparr>, playerInventory = [],
      playerMovementHistory = [\<lparr>lat = 0, lng = 0\<rparr>],
      caches = [(''0,0'',
         toMomento \<lparr>cache_cell = cell00,
           cache_coins = [\<lparr>coin_cell = cell00, coin_serial = 0\<rparr>,
                          \<lparr>coin_cell = cell00, coin_serial = 1\<rparr>]\<rparr>)],
      cacheMarkers = [(''0,0'', 4)], localStorage = Map.empty,
      coinHeap = (\<lambda>r. \<lparr>coin_cell = cell00,
                         coin_serial = (if r = 2 then 1 else if r = 5 then 7 else 0)\<rparr>),
      cacheHeap = (\<lambda>r. \<lparr>cell_of = cell00, coin_refs = (if r = 0 then [1, 2] else [])\<rparr>),
      popupCache = (\<lambda>r. 0), mapLayers = [4], nextRef = 6\<rparr>"

section \<open>Vocabulary of the proofs\<close>

text \<open>
  The cache that \<open>spawnCache\<close> generates for a cell: section 4.3 of the specification,
  with the count as \<open>generateCoins\<close> computes it.
\<close>

definition numCoins_of :: "(string \<Rightarrow> rat) \<Rightarrow> Cell \<Rightarrow> int" where
  "numCoins_of luck cell =
     \<lfloor>js_plus
        (js_times
           (luck (array_toString [show_int (cell_i cell), show_int (cell_j cell), ''numCoins'']))
           3)
        1\<rfloor>"

definition createdCache :: "(string \<Rightarrow> rat) \<Rightarrow> Cell \<Rightarrow> Cache" where
  "createdCache luck cell =
     \<lparr>cache_cell = cell,
      cache_coins = map (\<lambda>s. \<lparr>coin_cell = cell, coin_serial = int s\<rparr>) [0..<nat (numCoins_of luck cell)]\<rparr>"

text \<open>
  A registry whose mementos \<open>fromMomento\<close> can read (or that are empty, which makes
  \<open>spawnCache\<close> generate): no \<open>spawnCache\<close> throws on it.
\<close>

definition memento_ok :: "string \<Rightarrow> bool" where
  "memento_ok m = (m = [] \<or> (case fromMomento m of Inl e \<Rightarrow> False | Inr c \<Rightarrow> True))"

definition registry_ok :: "(string \<times> string) list \<Rightarrow> bool" where
  "registry_ok registry = list_all (\<lambda>(k, m). memento_ok m) registry"

text \<open>
  What one successful \<open>spawnCache\<close> does besides its change of the registry: a new
  rectangle over a new cache object of value \<open>v\<close>, the objects that existed untouched.
\<close>

definition spawned :: "Cell \<Rightarrow> Cache \<Rightarrow> game \<Rightarrow> game \<Rightarrow> bool" where
  "spawned cell v st st' =
     (\<exists>cache rect.
        nextRef st \<le> cache \<and> cache < rect \<and> nextRef st' = Suc rect \<and>
        cacheMarkers st' = AList.update (cellToString cell) rect (cacheMarkers st) \<and>
        mapLayers st' = mapLayers st @ [rect] \<and>
        popupCache st' = (popupCache st)(rect := cache) \<and>
        readCache st' cache = v \<and>
        list_all (\<lambda>r. r < rect) (coin_refs (cacheHeap st' cache)) \<and>
        (\<forall>r. r < nextRef st \<longrightarrow> coinHeap st' r = coinHeap st r \<and> cacheHeap st' r = cacheHeap st r) \<and>
        playerLocation st' = playerLocation st \<and>
        playerInventory st' = playerInventory st \<and>
        playerMovementHistory st' = playerMovementHistory st \<and>
        (\<forall>k. k \<noteq> ''caches'' \<longrightarrow> localStorage st' k = localStorage st k) \<and>
        localStorage st' ''caches'' =
          Some (stringify (JArr (map (\<lambda>(k, m). JArr [JStr k, JStr m]) (caches st')))))"


text \<open>
  What a \<open>spawnCache\<close> for another cell, and so an \<open>updateCaches\<close> that does not touch
  the cell of \<open>key\<close>, keeps: the two registry entries of \<open>key\<close>, the objects that exist,
  the player, and the storage records other than \<^verbatim>\<open>"caches"\<close>.
\<close>

definition heap_frame :: "game \<Rightarrow> game \<Rightarrow> bool" where
  "heap_frame st st' =
     (nextRef st \<le> nextRef st' \<and>
      (\<forall>r. r < nextRef st \<longrightarrow>
         coinHeap st' r = coinHeap st r \<and> cacheHeap st' r = cacheHeap st r \<and>
         popupCache st' r = popupCache st r))"

definition player_frame :: "game \<Rightarrow> game \<Rightarrow> bool" where
  "player_frame st st' =
     (playerLocation st' = playerLocation st \<and>
      playerInventory st' = playerInventory st \<and>
      playerMovementHistory st' = playerMovementHistory st \<and>
      (\<forall>k. k \<noteq> ''caches'' \<longrightarrow> localStorage st' k = localStorage st k))"

definition kept :: "string \<Rightarrow> game \<Rightarrow> game \<Rightarrow> bool" where
  "kept key st st' =
     (map_of (caches st') key = map_of (caches st) key \<and>
      map_of (cacheMarkers st') key = map_of (cacheMarkers st) key \<and>
      heap_frame st st' \<and> player_frame st st')"

text \<open>The cells that \<open>updateCaches\<close> spawns from a location when no marker exists.\<close>

definition lucky_cells :: "(string \<Rightarrow> rat) \<Rightarrow> LatLng \<Rightarrow> Cell list" where
  "lucky_cells luck coord =
     (case getVisibleCells coord of
        None \<Rightarrow> []
      | Some visibleCells \<Rightarrow>
          filter (\<lambda>cell. luck (cellToString cell) < CACHE_SPAWN_PROBABILITY) visibleCells)"

text \<open>A loop counter of \<open>getVisibleCells\<close>: a double that is an integer.\<close>

definition counter :: "rat \<Rightarrow> bool" where
  "counter x = (round_double x = x \<and> x = of_int \<lfloor>x\<rfloor>)"

text \<open>A storage record that \<open>loadLocalStorage\<close> skips: missing, or the empty string.\<close>

definition missing :: "game \<Rightarrow> string \<Rightarrow> bool" where
  "missing st key = (localStorage st key = None \<or> localStorage st key = Some [])"

text \<open>
  The JSON values whose text \<open>JSON_parse\<close> is proved to read back: integers, strings of
  characters from the space on, objects without a repeated key. Everything the program
  writes into a memento is of this kind.
\<close>

definition printable :: "string \<Rightarrow> bool" where
  "printable s = list_all (\<lambda>c. 32 \<le> (of_char c :: nat)) s"

fun json_ok :: "json \<Rightarrow> bool"
and elements_ok :: "json list \<Rightarrow> bool"
and members_ok :: "(string \<times> json) list \<Rightarrow> bool" where
  "json_ok JNull = True"
| "json_ok (JBool b) = True"
| "json_ok (JNum r) = is_integer r"
| "json_ok (JStr s) = printable s"
| "json_ok (JArr vs) = elements_ok vs"
| "json_ok (JObj ms) = (members_ok ms \<and> distinct (map fst ms))"
| "elements_ok [] = True"
| "elements_ok (v # vs) = (json_ok v \<and> elements_ok vs)"
| "members_ok [] = True"
| "members_ok ((k, v) # ms) = (printable k \<and> json_ok v \<and> members_ok ms)"

text \<open>The depth of recursion the parser needs on the text of a value.\<close>

fun need :: "json \<Rightarrow> nat"
and need_elements :: "json list \<Rightarrow> nat"
and need_members :: "(string \<times> json) list \<Rightarrow> nat" where
  "need JNull = 1"
| "need (JBool b) = 1"
| "need (JNum r) = 1"
| "need (JStr s) = 1"
| "need (JArr vs) = Suc (need_elements vs)"
| "need (JObj ms) = Suc (need_members ms)"
| "need_elements [] = 0"
| "need_elements (v # vs) = Suc (need v + need_elements vs)"
| "need_members [] = 0"
| "need_members ((k, v) # ms) = Suc (need v + need_members ms)"

definition value_start :: "char \<Rightarrow> bool" where
  "value_start c = (\<not> is_ws c \<and> c \<noteq> CHR '']'' \<and> c \<noteq> CHR ''}'')"

text \<open>What may follow a number in the text \<open>stringify\<close> writes.\<close>

definition number_end :: "string \<Rightarrow> bool" where
  "number_end s =
     (case s of
        [] \<Rightarrow> True
      | c # _ \<Rightarrow> c = CHR '','' \<or> c = CHR '']'' \<or> c = CHR ''}'')"

section \<open>Doubles\<close>

subsection \<open>Rounding to an integer\<close>

lemma round_half_even_of_int [simp]: "round_half_even (of_int n) = n"
  by (simp add: round_half_even_def)

lemma round_half_even_0 [simp]: "round_half_even 0 = 0"
  by (simp add: round_half_even_def)

lemma round_half_even_le: "q \<le> of_int n \<Longrightarrow> round_half_even q \<le> n"
  unfolding round_half_even_def Let_def
  by (auto simp: not_less) linarith+

lemma round_half_even_ge: "of_int n \<le> q \<Longrightarrow> n \<le> round_half_even q"
  unfolding round_half_even_def Let_def
  by (auto simp: not_less) linarith+

lemma round_half_even_mono: "p \<le> q \<Longrightarrow> round_half_even p \<le> round_half_even q"
proof -
  assume pq: "p \<le> q"
  then have f: "\<lfloor>p\<rfloor> \<le> \<lfloor>q\<rfloor>" by (rule floor_mono)
  have a: "round_half_even p \<le> \<lfloor>p\<rfloor> + 1" "\<lfloor>q\<rfloor> \<le> round_half_even q"
    by (auto simp: round_half_even_def Let_def)
  show ?thesis
  proof (cases "\<lfloor>p\<rfloor> = \<lfloor>q\<rfloor>")
    case True
    with pq show ?thesis by (auto simp: round_half_even_def Let_def)
  next
    case False
    with f a show ?thesis by linarith
  qed
qed

lemma round_half_even_minus: "round_half_even (- q) = - round_half_even q"
proof (cases "q = of_int \<lfloor>q\<rfloor>")
  case True
  then obtain n where "q = of_int n" ..
  then show ?thesis by (simp flip: of_int_minus)
next
  case False
  then have "of_int \<lfloor>q\<rfloor> < q" using of_int_floor_le [of q] by linarith
  moreover have "q < of_int \<lfloor>q\<rfloor> + 1" by linarith
  ultimately have c: "\<lfloor>- q\<rfloor> = - \<lfloor>q\<rfloor> - 1" by (intro floor_unique) auto
  show ?thesis
    unfolding round_half_even_def Let_def c by (auto simp: algebra_simps) 
qed

lemma round_half_even_eqI: "\<bar>q - of_int m\<bar> < 1 / 2 \<Longrightarrow> round_half_even q = m"
proof -
  assume a: "\<bar>q - of_int m\<bar> < 1 / 2"
  show ?thesis
  proof (cases "of_int m \<le> q")
    case True
    with a have "\<lfloor>q\<rfloor> = m" by (intro floor_unique) auto
    with a True show ?thesis by (auto simp: round_half_even_def Let_def)
  next
    case False
    with a have "\<lfloor>q\<rfloor> = m - 1" by (intro floor_unique) auto
    with a False show ?thesis by (auto simp: round_half_even_def Let_def)
  qed
qed

lemma round_half_even_half: "even (round_half_even (of_int n + 1 / 2))"
proof -
  have "\<lfloor>(of_int n :: rat) + 1 / 2\<rfloor> = n" by (intro floor_unique) auto
  then show ?thesis by (auto simp: round_half_even_def Let_def)
qed

subsection \<open>Powers of two\<close>

lemma powi2_pos [simp]: "0 < (2 :: rat) powi e"
  by simp

lemma powi2_add: "(2 :: rat) powi (a + b) = 2 powi a * 2 powi b"
  by (simp add: power_int_add)

lemma powi2_diff: "(2 :: rat) powi (a - b) = 2 powi a / 2 powi b"
  by (simp add: power_int_diff)

lemma powi2_less [simp]: "(2 :: rat) powi a < 2 powi b \<longleftrightarrow> a < b"
proof
  assume "a < b"
  then show "(2 :: rat) powi a < 2 powi b" by (simp add: power_int_strict_increasing)
next
  assume l: "(2 :: rat) powi a < 2 powi b"
  show "a < b"
  proof (rule ccontr)
    assume "\<not> a < b"
    then have "(2 :: rat) powi b \<le> 2 powi a" by (simp add: power_int_increasing)
    with l show False by simp
  qed
qed

lemma powi2_le [simp]: "(2 :: rat) powi a \<le> 2 powi b \<longleftrightarrow> a \<le> b"
  using powi2_less [of b a] by (simp only: not_less [symmetric])

lemma exponent_bounds:
  assumes "x \<noteq> 0"
  shows "2 powi exponent x \<le> \<bar>x\<bar>" and "\<bar>x\<bar> < 2 powi (exponent x + 1)"
proof -
  obtain p q where pq: "quotient_of \<bar>x\<bar> = (p, q)" by (cases "quotient_of \<bar>x\<bar>")
  then have q: "0 < q" and x: "\<bar>x\<bar> = of_int p / of_int q"
    by (auto dest: quotient_of_denom_pos quotient_of_div)
  from assms have "0 < \<bar>x\<bar>" by simp
  with x q have p: "0 < p" by (simp add: zero_less_divide_iff)
  define a where "a = bitlen p"
  define b where "b = bitlen q"
  from bitlen_bounds [OF p] have "2 ^ nat (a - 1) \<le> p" "p < 2 ^ nat a" by (simp_all add: a_def)
  moreover have a1: "1 \<le> a" using p by (simp add: a_def bitlen_alt_def)
  ultimately have pa: "(2 :: rat) powi (a - 1) \<le> of_int p" "of_int p < (2 :: rat) powi a"
    by (simp_all add: power_int_def)
  from bitlen_bounds [OF q] have "2 ^ nat (b - 1) \<le> q" "q < 2 ^ nat b" by (simp_all add: b_def)
  moreover have b1: "1 \<le> b" using q by (simp add: b_def bitlen_alt_def)
  ultimately have qb: "(2 :: rat) powi (b - 1) \<le> of_int q" "of_int q < (2 :: rat) powi b"
    by (simp_all add: power_int_def)
  have lo: "2 powi (a - b - 1) < \<bar>x\<bar>"
  proof -
    have "2 powi (a - b - 1) = (2 :: rat) powi (a - 1) / 2 powi b"
      by (simp flip: powi2_diff) (simp add: algebra_simps)
    also have "\<dots> \<le> of_int p / 2 powi b" using pa(1) by (simp add: divide_right_mono)
    also have "\<dots> < of_int p / of_int q" using qb(2) p q by (simp add: divide_strict_left_mono)
    finally show ?thesis by (simp add: x)
  qed
  have hi: "\<bar>x\<bar> < 2 powi (a - b + 1)"
  proof -
    have "of_int p / of_int q < (2 :: rat) powi a / of_int q" using pa(2) q by (simp add: divide_strict_right_mono)
    also have "\<dots> \<le> 2 powi a / 2 powi (b - 1)" using qb(1) q by (simp add: divide_left_mono)
    also have "\<dots> = 2 powi (a - b + 1)" by (simp flip: powi2_diff) (simp add: algebra_simps)
    finally show ?thesis by (simp add: x)
  qed
  have e: "exponent x = (if 2 powi (a - b) \<le> \<bar>x\<bar> then a - b else a - b - 1)"
    by (simp add: exponent_def pq a_def b_def Let_def)
  show "2 powi exponent x \<le> \<bar>x\<bar>" using lo by (simp add: e)
  show "\<bar>x\<bar> < 2 powi (exponent x + 1)" using hi by (auto simp: e not_le)
qed

lemma exponent_unique:
  assumes "2 powi e \<le> \<bar>x\<bar>" and "\<bar>x\<bar> < 2 powi (e + 1)"
  shows "exponent x = e"
proof -
  have "0 < (2 :: rat) powi e" by simp
  with assms(1) have "0 < \<bar>x\<bar>" by linarith
  then have nz: "x \<noteq> 0" by simp
  from exponent_bounds [OF nz] assms
  have "(2 :: rat) powi e < 2 powi (exponent x + 1)" "(2 :: rat) powi exponent x < 2 powi (e + 1)"
    by linarith+
  then show ?thesis by simp
qed

subsection \<open>Rounding to a double\<close>

lemma ulp_pos [simp]: "0 < ulp x"
  by (simp add: ulp_def)

lemma ulp_nonneg [simp]: "0 \<le> ulp x"
  by (simp add: ulp_def)

lemma ulp_nonzero [simp]: "ulp x \<noteq> 0"
  by (simp add: ulp_def)

lemma ulp_minus [simp]: "ulp (- x) = ulp x"
  by (simp add: ulp_def exponent_def)

lemma ulp_normal:
  "2 powi e \<le> \<bar>x\<bar> \<Longrightarrow> \<bar>x\<bar> < 2 powi (e + 1) \<Longrightarrow> - 1022 \<le> e \<Longrightarrow> ulp x = 2 powi (e - 52)"
  by (simp add: ulp_def exponent_unique)

lemma ulp_subnormal:
  assumes "x \<noteq> 0" and "\<bar>x\<bar> < 2 powi (- 1022)"
  shows "ulp x = 2 powi (- 1074)"
proof -
  from exponent_bounds(1) [OF assms(1)] assms(2)
  have "(2 :: rat) powi exponent x < 2 powi (- 1022)" by (rule le_less_trans)
  then have "exponent x < - 1022" by (simp only: powi2_less)
  then show ?thesis by (simp add: ulp_def)
qed

lemma round_double_0 [simp]: "round_double 0 = 0"
  by (simp add: round_double_def)

lemma round_double_minus: "round_double (- x) = - round_double x"
  by (simp add: round_double_def round_half_even_minus)

lemma round_double_normal:
  "2 powi e \<le> \<bar>x\<bar> \<Longrightarrow> \<bar>x\<bar> < 2 powi (e + 1) \<Longrightarrow> - 1022 \<le> e \<Longrightarrow>
   round_double x = of_int (round_half_even (x / 2 powi (e - 52))) * 2 powi (e - 52)"
  by (simp add: round_double_def ulp_normal)

lemma round_double_exact: "x / ulp x = of_int m \<Longrightarrow> round_double x = x"
  by (simp add: round_double_def) (metis nonzero_eq_divide_eq ulp_pos less_irrefl)

lemma round_double_eqI:
  assumes "2 powi e \<le> \<bar>x\<bar>" and "\<bar>x\<bar> < 2 powi (e + 1)" and "- 1022 \<le> e"
    and "\<bar>x / 2 powi (e - 52) - of_int m\<bar> < 1 / 2"
  shows "round_double x = of_int m * 2 powi (e - 52)"
  using assms by (simp add: round_double_normal round_half_even_eqI)

text \<open>The binade of the result.\<close>

lemma round_double_upper:
  assumes "0 < x"
  shows "round_double x \<le> 2 powi (max (exponent x) (- 1022) + 1)"
proof -
  define E where "E = max (exponent x) (- 1022)"
  have u: "ulp x = 2 powi (E - 52)" by (simp add: ulp_def E_def)
  from assms have "x < 2 powi (exponent x + 1)" using exponent_bounds(2) [of x] by simp
  also have "\<dots> \<le> 2 powi (E + 1)" by (simp add: E_def)
  also have "\<dots> = of_int (2 ^ 53) * ulp x"
    unfolding u using powi2_add [of 53 "E - 52"] by (simp add: add.commute)
  finally have "x / ulp x \<le> of_int (2 ^ 53)" by (simp add: pos_divide_le_eq)
  then have "round_half_even (x / ulp x) \<le> 2 ^ 53" by (rule round_half_even_le)
  then have "(of_int (round_half_even (x / ulp x)) :: rat) \<le> of_int (2 ^ 53)"
    by (simp only: of_int_le_iff)
  then have "round_double x \<le> of_int (2 ^ 53) * ulp x"
    unfolding round_double_def by (rule mult_right_mono) simp
  also have "\<dots> = 2 powi (E + 1)"
    unfolding u using powi2_add [of 53 "E - 52"] by (simp add: add.commute)
  finally show ?thesis by (simp add: E_def)
qed

lemma round_double_nonneg:
  assumes "0 \<le> x"
  shows "0 \<le> round_double x"
proof -
  from assms have "of_int 0 \<le> x / ulp x" by simp
  then have "0 \<le> round_half_even (x / ulp x)" by (rule round_half_even_ge)
  then show ?thesis by (simp add: round_double_def)
qed

lemma round_double_lower:
  assumes "0 < x" and "- 1022 \<le> exponent x"
  shows "2 powi exponent x \<le> round_double x"
proof -
  from assms(2) have u: "ulp x = 2 powi (exponent x - 52)" by (simp add: ulp_def)
  have "2 powi exponent x = of_int (2 ^ 52) * ulp x"
    unfolding u using powi2_add [of 52 "exponent x - 52"] by simp
  moreover from assms(1) have "2 powi exponent x \<le> x" using exponent_bounds(1) [of x] by simp
  ultimately have "of_int (2 ^ 52) \<le> x / ulp x" by (simp add: pos_le_divide_eq)
  then have "2 ^ 52 \<le> round_half_even (x / ulp x)" by (rule round_half_even_ge)
  then have "(of_int (2 ^ 52) :: rat) \<le> of_int (round_half_even (x / ulp x))"
    by (simp only: of_int_le_iff)
  then have "of_int (2 ^ 52) * ulp x \<le> round_double x"
    unfolding round_double_def by (rule mult_right_mono) simp
  with \<open>2 powi exponent x = of_int (2 ^ 52) * ulp x\<close> show ?thesis by simp
qed

lemma exponent_mono:
  assumes "0 < x" and "x \<le> y"
  shows "exponent x \<le> exponent y"
proof -
  from assms have "2 powi exponent x \<le> x" "y < 2 powi (exponent y + 1)"
    using exponent_bounds(1) [of x] exponent_bounds(2) [of y] by simp_all
  with assms(2) have "(2 :: rat) powi exponent x < 2 powi (exponent y + 1)" by linarith
  then show ?thesis by simp
qed

lemma round_double_mono_pos:
  assumes "0 < x" and "x \<le> y"
  shows "round_double x \<le> round_double y"
proof -
  define Ex where "Ex = max (exponent x) (- 1022)"
  define Ey where "Ey = max (exponent y) (- 1022)"
  from exponent_mono [OF assms] have le: "Ex \<le> Ey" by (simp add: Ex_def Ey_def)
  show ?thesis
  proof (cases "Ex = Ey")
    case True
    then have u: "ulp x = ulp y" by (simp add: ulp_def Ex_def Ey_def)
    from assms(2) have "x / ulp y \<le> y / ulp y" by (simp add: divide_right_mono)
    then have "round_half_even (x / ulp y) \<le> round_half_even (y / ulp y)"
      by (rule round_half_even_mono)
    then show ?thesis by (simp add: round_double_def u)
  next
    case False
    with le have lt: "Ex < Ey" by simp
    then have n: "- 1022 \<le> exponent y" "Ey = exponent y" by (auto simp: Ex_def Ey_def max_def split: if_splits)
    from assms have "0 < y" by simp
    have "round_double x \<le> 2 powi (Ex + 1)"
      using round_double_upper [OF assms(1)] by (simp add: Ex_def)
    also have "\<dots> \<le> 2 powi Ey" using lt by simp
    also have "\<dots> \<le> round_double y"
      using round_double_lower [OF \<open>0 < y\<close> n(1)] by (simp add: n(2))
    finally show ?thesis .
  qed
qed

lemma round_double_mono:
  assumes "x \<le> y"
  shows "round_double x \<le> round_double y"
proof -
  consider "0 < x" | "x \<le> 0" "0 \<le> y" | "y < 0" by linarith
  then show ?thesis
  proof cases
    case 1
    from 1 assms show ?thesis by (rule round_double_mono_pos)
  next
    case 2
    then have "0 \<le> round_double (- x)" "0 \<le> round_double y"
      by (simp_all add: round_double_nonneg)
    then show ?thesis by (simp add: round_double_minus)
  next
    case 3
    with assms have "0 < - y" "- y \<le> - x" by simp_all
    then have "round_double (- y) \<le> round_double (- x)" by (rule round_double_mono_pos)
    then show ?thesis by (simp add: round_double_minus)
  qed
qed

subsection \<open>The numbers that are doubles\<close>

lemma mantissa_le: "\<bar>round_half_even (x / ulp x)\<bar> \<le> 2 ^ 53"
proof (cases "x = 0")
  case True
  then show ?thesis by simp
next
  case False
  define E where "E = max (exponent x) (- 1022)"
  have u: "ulp x = 2 powi (E - 52)" by (simp add: ulp_def E_def)
  have "\<bar>x\<bar> < 2 powi (exponent x + 1)" using exponent_bounds(2) [OF False] .
  also have "\<dots> \<le> 2 powi (E + 1)" by (simp add: E_def)
  also have "\<dots> = of_int (2 ^ 53) * ulp x"
    unfolding u using powi2_add [of 53 "E - 52"] by (simp add: add.commute)
  finally have "\<bar>x\<bar> / ulp x \<le> of_int (2 ^ 53)" by (simp add: pos_divide_le_eq)
  moreover have "x / ulp x \<le> \<bar>x\<bar> / ulp x" by (simp add: divide_right_mono)
  moreover have "(- \<bar>x\<bar>) / ulp x \<le> x / ulp x" by (rule divide_right_mono) simp_all
  ultimately have a: "x / ulp x \<le> of_int (2 ^ 53)" and b: "of_int (- (2 ^ 53)) \<le> x / ulp x"
    by simp_all
  from a have "round_half_even (x / ulp x) \<le> 2 ^ 53" by (rule round_half_even_le)
  moreover from b have "- (2 ^ 53) \<le> round_half_even (x / ulp x)" by (rule round_half_even_ge)
  ultimately show ?thesis by simp
qed

lemma round_double_representable:
  assumes m: "\<bar>m\<bar> \<le> 2 ^ 53" and k: "- 1074 \<le> k"
  shows "round_double (of_int m * 2 powi k) = of_int m * 2 powi k"
proof (cases "m = 0")
  case True
  then show ?thesis by simp
next
  case False
  define x :: rat where "x = of_int m * 2 powi k"
  define E where "E = max (exponent x) (- 1022)"
  have u: "ulp x = 2 powi (E - 52)" by (simp add: ulp_def E_def)
  from False have nz: "x \<noteq> 0" by (simp add: x_def)
  have ax: "\<bar>x\<bar> = of_int \<bar>m\<bar> * 2 powi k" by (simp add: x_def abs_mult)
  have "2 powi exponent x \<le> \<bar>x\<bar>" using exponent_bounds(1) [OF nz] .
  also have "\<dots> \<le> of_int (2 ^ 53) * 2 powi k"
    unfolding ax using m by (intro mult_right_mono) simp_all
  also have "\<dots> = 2 powi (53 + k)" using powi2_add [of 53 k] by simp
  finally have e: "exponent x \<le> 53 + k" by simp
  have "\<exists>n. x / ulp x = of_int n"
  proof (cases "exponent x = 53 + k")
    case True
    with exponent_bounds(1) [OF nz] have "2 powi (53 + k) \<le> of_int \<bar>m\<bar> * (2 :: rat) powi k"
      by (simp add: ax)
    then have "of_int (2 ^ 53) * 2 powi k \<le> of_int \<bar>m\<bar> * (2 :: rat) powi k"
      using powi2_add [of 53 k] by simp
    then have "(of_int (2 ^ 53) :: rat) \<le> of_int \<bar>m\<bar>" by (simp only: mult_le_cancel_right_pos powi2_pos)
    with m have "\<bar>m\<bar> = 2 ^ 53" by simp
    then have mm: "m = 2 ^ 53 \<or> m = - (2 ^ 53)" by (auto simp: abs_if split: if_splits)
    from True k have "E = 53 + k" by (simp add: E_def)
    then have "ulp x = 2 * 2 powi k" using powi2_add [of 1 k] by (simp add: u)
    then have "x / ulp x = of_int m / 2" by (simp add: x_def)
    also from mm have "of_int m / 2 = (of_int (m div 2) :: rat)" by auto
    finally show ?thesis ..
  next
    case False
    with e have "exponent x - 52 \<le> k" by simp
    with k have "E - 52 \<le> k" by (simp add: E_def)
    then have "(2 :: rat) powi k = 2 ^ nat (k - (E - 52)) * 2 powi (E - 52)"
      using powi2_add [of "k - (E - 52)" "E - 52"] by (simp add: power_int_def)
    then have "x = of_int m * 2 ^ nat (k - (E - 52)) * 2 powi (E - 52)"
      by (simp add: x_def)
    then have "x / 2 powi (E - 52) = of_int (m * 2 ^ nat (k - (E - 52)))"
      by simp
    then have "x / ulp x = of_int (m * 2 ^ nat (k - (E - 52)))"
      by (simp only: u)
    then show ?thesis ..
  qed
  then obtain n where "x / ulp x = of_int n" ..
  then have "round_double x = x" by (rule round_double_exact)
  then show ?thesis by (simp add: x_def)
qed

lemma round_double_idem [simp]: "round_double (round_double x) = round_double x"
proof -
  have "- 1074 \<le> max (exponent x) (- 1022) - 52" by simp
  with mantissa_le [of x] show ?thesis
    unfolding round_double_def [of x] ulp_def [of x] by (rule round_double_representable)
qed

lemma round_double_of_int:
  assumes "\<bar>n\<bar> \<le> 2 ^ 53"
  shows "round_double (of_int n) = of_int n"
  using round_double_representable [OF assms, of 0] by simp

lemma round_double_int_valued: "\<exists>m. round_double (of_int n) = of_int m"
proof (cases "\<bar>n\<bar> \<le> 2 ^ 53")
  case True
  then show ?thesis by (auto simp: round_double_of_int)
next
  case False
  define x :: rat where "x = of_int n"
  from False have "(2 :: rat) powi 53 \<le> \<bar>x\<bar>"
    by (simp add: x_def flip: of_int_abs)
  moreover from False have "x \<noteq> 0" by (auto simp: x_def)
  ultimately have "(2 :: rat) powi 53 < 2 powi (exponent x + 1)"
    using exponent_bounds(2) [of x] by linarith
  then have "53 < exponent x + 1" by (simp only: powi2_less)
  then have e: "53 \<le> exponent x" by simp
  then have "ulp x = 2 powi (exponent x - 52)" by (simp add: ulp_def)
  also have "\<dots> = of_int (2 ^ nat (exponent x - 52))" using e by (simp add: power_int_def)
  finally have "round_double x =
      of_int (round_half_even (x / ulp x) * 2 ^ nat (exponent x - 52))"
    by (simp add: round_double_def)
  then show ?thesis unfolding x_def ..
qed

lemma round_half_even_tie:
  "round_half_even (of_int n + 1 / 2) = (if even n then n else n + 1)"
proof -
  have "\<lfloor>(of_int n :: rat) + 1 / 2\<rfloor> = n" by (intro floor_unique) auto
  then show ?thesis by (simp add: round_half_even_def Let_def)
qed


lemma round_half_even_less: "q < of_int n + 1 / 2 \<Longrightarrow> round_half_even q \<le> n"
  unfolding round_half_even_def Let_def
  by (auto simp: not_less) linarith+

lemma round_double_le:
  assumes "x \<le> of_int m * 2 powi k" and "\<bar>m\<bar> \<le> 2 ^ 53" and "- 1074 \<le> k"
  shows "round_double x \<le> of_int m * 2 powi k"
  using round_double_mono [OF assms(1)] round_double_representable [OF assms(2,3)] by simp

lemma round_double_ge:
  assumes "of_int m * 2 powi k \<le> x" and "\<bar>m\<bar> \<le> 2 ^ 53" and "- 1074 \<le> k"
  shows "of_int m * 2 powi k \<le> round_double x"
  using round_double_mono [OF assms(1)] round_double_representable [OF assms(2,3)] by simp

lemma floor_round_double:
  assumes lo: "of_int n \<le> x" and hi: "x \<le> of_int m * 2 powi k"
    and m: "\<bar>m\<bar> \<le> 2 ^ 53" and k: "- 1074 \<le> k" and n: "\<bar>n\<bar> \<le> 2 ^ 53"
    and less: "of_int m * 2 powi k < (of_int n + 1 :: rat)"
  shows "\<lfloor>round_double x\<rfloor> = n"
proof -
  from lo have "of_int n * 2 powi 0 \<le> x" by simp
  from round_double_ge [OF this n] have "of_int n \<le> round_double x" by simp
  moreover from round_double_le [OF hi m k] less have "round_double x < of_int n + 1" by simp
  ultimately show ?thesis by (rule floor_unique)
qed

lemma double_on_grid:
  assumes "round_double x = x" and "2 powi e \<le> \<bar>x\<bar>" and "\<bar>x\<bar> < 2 powi (e + 1)" and "- 1022 \<le> e"
  shows "\<exists>n. x = of_int n * 2 powi (e - 52)"
  using round_double_normal [OF assms(2,3,4)] assms(1) by metis


section \<open>Reading back what was written\<close>

subsection \<open>Decimal digits\<close>

lemma digit_char_props:
  assumes "d < 10"
  shows "is_digit (digit_char d)" and "digit_val (digit_char d) = d"
    and "digit_char d \<noteq> CHR ''-''" and "(digit_char d = CHR ''0'') = (d = 0)"
proof -
  from assms have "d \<in> {0, 1, 2, 3, 4, 5, 6, 7, 8, 9}" by auto
  then show "is_digit (digit_char d)" and "digit_val (digit_char d) = d"
    and "digit_char d \<noteq> CHR ''-''" and "(digit_char d = CHR ''0'') = (d = 0)"
    by (auto simp: digit_char_def is_digit_def digit_val_def)
qed

lemma show_nat_nonempty: "show_nat n \<noteq> []"
  by (subst show_nat.simps) simp

lemma show_nat_digits: "list_all is_digit (show_nat n)"
proof (induction n rule: show_nat.induct)
  case (1 n)
  show ?case
  proof (cases "n < 10")
    case True
    then show ?thesis by (subst show_nat.simps) (simp add: digit_char_props)
  next
    case False
    with 1 show ?thesis by (subst show_nat.simps) (simp add: digit_char_props)
  qed
qed

lemma digits_val_snoc: "digits_val (ds @ [c]) = 10 * digits_val ds + digit_val c"
  by (simp add: digits_val_def)

lemma digits_val_show_nat: "digits_val (show_nat n) = n"
proof (induction n rule: show_nat.induct)
  case (1 n)
  show ?case
  proof (cases "n < 10")
    case True
    then show ?thesis
      by (subst show_nat.simps) (simp add: digits_val_def digit_char_props)
  next
    case False
    with 1 show ?thesis
      by (subst show_nat.simps) (simp add: digits_val_snoc digit_char_props)
  qed
qed

lemma hd_show_nat: "0 < n \<Longrightarrow> hd (show_nat n) \<noteq> CHR ''0''"
proof (induction n rule: show_nat.induct)
  case (1 n)
  show ?case
  proof (cases "n < 10")
    case True
    with 1 show ?thesis by (subst show_nat.simps) (simp add: digit_char_props)
  next
    case False
    then have "0 < n div 10" by simp
    with 1 False show ?thesis
      by (subst show_nat.simps) (simp add: show_nat_nonempty)
  qed
qed

lemma show_nat_0: "show_nat 0 = ''0''"
  by (subst show_nat.simps) (simp add: digit_char_def)

lemma show_nat_no_leading_zero: "\<not> (1 < length (show_nat n) \<and> hd (show_nat n) = CHR ''0'')"
  by (cases "n = 0") (simp_all add: show_nat_0 hd_show_nat)

lemma number_end_cases:
  assumes "number_end s"
  shows "takeWhile is_digit s = []" and "dropWhile is_digit s = s"
    and "parse_fraction s = Some (0, s)" and "parse_exponent s = Some (0, s)"
  using assms
  by (auto simp: number_end_def is_digit_def parse_fraction_def parse_exponent_def
           split: list.splits)

lemma takeWhile_show_nat:
  "number_end s \<Longrightarrow> takeWhile is_digit (show_nat n @ s) = show_nat n"
  using show_nat_digits [of n]
  by (simp add: list_all_iff number_end_cases)

lemma dropWhile_show_nat:
  "number_end s \<Longrightarrow> dropWhile is_digit (show_nat n @ s) = s"
  using show_nat_digits [of n]
  by (simp add: list_all_iff number_end_cases)

lemma hd_show_nat_not_minus: "hd (show_nat n) \<noteq> CHR ''-''"
  using show_nat_digits [of n] show_nat_nonempty [of n]
  by (cases "show_nat n") (auto simp: is_digit_def)

lemma parse_number_show_int:
  assumes "number_end s"
  shows "parse_number (show_int n @ s) = Some (of_int n, s)"
proof (cases "n < 0")
  case True
  then show ?thesis
    using assms show_nat_no_leading_zero [of "nat (- n)"]
    by (simp add: parse_number_def show_int_def takeWhile_show_nat dropWhile_show_nat
        show_nat_nonempty digits_val_show_nat number_end_cases scale10_def Let_def)
next
  case False
  obtain c cs where eq: "show_nat (nat n) = c # cs"
    using show_nat_nonempty [of "nat n"] by (cases "show_nat (nat n)") auto
  with hd_show_nat_not_minus [of "nat n"] have "c \<noteq> CHR ''-''" by simp
  moreover have "takeWhile is_digit (c # cs @ s) = c # cs" "dropWhile is_digit (c # cs @ s) = s"
    using takeWhile_show_nat [OF assms, of "nat n"] dropWhile_show_nat [OF assms, of "nat n"] eq
    by simp_all
  moreover have "digits_val (c # cs) = nat n"
    using digits_val_show_nat [of "nat n"] eq by simp
  moreover have "\<not> (1 < length (c # cs) \<and> hd (c # cs) = CHR ''0'')"
    using show_nat_no_leading_zero [of "nat n"] eq by simp
  ultimately show ?thesis
    using False assms
    by (simp add: parse_number_def show_int_def eq number_end_cases scale10_def Let_def
          del: takeWhile.simps dropWhile.simps)
qed

lemma show_number_of_int: "show_number (of_int n) = show_int n"
  by (simp add: show_number_def show_unsigned_def show_int_def Let_def)

subsection \<open>Strings\<close>

lemma parse_chars_escape_char:
  assumes "32 \<le> (of_char c :: nat)"
  shows "parse_chars (escape_char c @ t) = map_option (apfst ((#) c)) (parse_chars t)"
proof -
  consider "c = dquote" | "c = backslash" | "c \<noteq> dquote" "c \<noteq> backslash" by blast
  then show ?thesis
  proof cases
    case 1
    then show ?thesis by (simp add: escape_char_def unescape_def dquote_def backslash_def)
  next
    case 2
    then show ?thesis by (simp add: escape_char_def unescape_def dquote_def backslash_def)
  next
    case 3
    with assms show ?thesis by (auto simp: escape_char_def)
  qed
qed

lemma parse_chars_quote:
  "printable s \<Longrightarrow> parse_chars (concat (map escape_char s) @ dquote # t) = Some (s, t)"
  by (induction s) (simp_all add: printable_def parse_chars_escape_char)

lemma parse_chars_quoted:
  "printable s \<Longrightarrow> \<exists>cs. quote s @ t = dquote # cs \<and> parse_chars cs = Some (s, t)"
  by (simp add: quote_def parse_chars_quote)

subsection \<open>Values\<close>

lemma show_nat_start: "\<exists>c cs. show_nat n = c # cs \<and> is_digit c"
  using show_nat_digits [of n] show_nat_nonempty [of n] by (cases "show_nat n") auto

lemma show_int_start: "\<exists>c cs. show_int n = c # cs \<and> (c = CHR ''-'' \<or> is_digit c)"
  using show_nat_start [of "nat n"] by (auto simp: show_int_def)

lemma show_number_start: "\<exists>c cs. show_number r = c # cs \<and> (c = CHR ''-'' \<or> is_digit c)"
proof -
  have "\<exists>c cs. show_unsigned x = c # cs \<and> is_digit c" for x
    using show_nat_start [of "nat \<lfloor>x\<rfloor>"] by (auto simp: show_unsigned_def Let_def)
  from this [of r] this [of "- r"] show ?thesis by (auto simp: show_number_def)
qed

lemma stringify_start: "\<exists>c cs. stringify v = c # cs \<and> value_start c"
proof (cases v)
  case (JNum r)
  from show_number_start [of r] show ?thesis
    by (auto simp: JNum value_start_def is_ws_def is_digit_def)
next
  case (JStr s)
  then show ?thesis by (simp add: quote_def value_start_def is_ws_def dquote_def)
qed (simp_all add: value_start_def is_ws_def)

lemma skip_ws_start: "value_start c \<Longrightarrow> skip_ws (c # cs) = c # cs"
  by (simp add: skip_ws_def value_start_def)

lemma skip_ws_stringify: "skip_ws (stringify v @ t) = stringify v @ t"
  using stringify_start [of v] by (auto simp: skip_ws_start)

lemma update_fresh: "k \<notin> fst ` set al \<Longrightarrow> AList.update k v al = al @ [(k, v)]"
  by (induction al) auto

lemma foldl_update_distinct:
  "distinct (map fst (acc @ ms)) \<Longrightarrow>
   foldl (\<lambda>acc (k, v). AList.update k v acc) acc ms = acc @ ms"
proof (induction ms arbitrary: acc)
  case Nil
  then show ?case by simp
next
  case (Cons m ms)
  obtain k v where m: "m = (k, v)" by (cases m)
  from Cons.prems have "k \<notin> fst ` set acc" by (auto simp: m)
  then have "AList.update k v acc = acc @ [(k, v)]" by (rule update_fresh)
  moreover from Cons.prems have "distinct (map fst ((acc @ [(k, v)]) @ ms))" by (simp add: m)
  ultimately show ?case using Cons.IH [of "acc @ [(k, v)]"] by (simp add: m)
qed

lemma object_of_members_distinct:
  "distinct (map fst ms) \<Longrightarrow> object_of_members ms = JObj ms"
  using foldl_update_distinct [of "[]" ms] by (simp add: object_of_members_def)

lemma number_end_simps [simp]:
  "number_end []" "number_end (CHR '','' # s)" "number_end (CHR '']'' # s)"
  "number_end (CHR ''}'' # s)"
  by (simp_all add: number_end_def)

lemma skip_ws_simps [simp]:
  "skip_ws (CHR '','' # s) = CHR '','' # s" "skip_ws (CHR '']'' # s) = CHR '']'' # s"
  "skip_ws (CHR ''}'' # s) = CHR ''}'' # s" "skip_ws (CHR '':'' # s) = CHR '':'' # s"
  "skip_ws (CHR ''['' # s) = CHR ''['' # s" "skip_ws (CHR ''{'' # s) = CHR ''{'' # s"
  "skip_ws (dquote # s) = dquote # s" "skip_ws [] = []"
  by (simp_all add: skip_ws_def is_ws_def dquote_def)

lemma dquote_neq [simp]:
  "dquote \<noteq> CHR ''{''" "dquote \<noteq> CHR ''[''" "dquote \<noteq> CHR ''}''" "dquote \<noteq> CHR '']''"
  "dquote \<noteq> CHR '',''" "dquote \<noteq> CHR '':''" "dquote \<noteq> backslash"
  by (simp_all add: dquote_def backslash_def)

lemma parse_value_number:
  assumes "is_integer r" and "number_end t"
  shows "parse_value (Suc n) (show_number r @ t) = Some (JNum r, t)"
proof -
  from assms(1) have rf: "r = of_int \<lfloor>r\<rfloor>" by (simp only: is_integer_def)
  have r: "show_number r = show_int \<lfloor>r\<rfloor>"
    by (subst rf) (rule show_number_of_int)
  obtain c cs where eq: "show_int \<lfloor>r\<rfloor> = c # cs" and c: "c = CHR ''-'' \<or> is_digit c"
    using show_int_start [of "\<lfloor>r\<rfloor>"] by blast
  from c have "skip_ws (c # cs @ t) = c # cs @ t"
    by (auto simp: skip_ws_def is_ws_def is_digit_def)
  moreover from c have "c \<noteq> CHR ''{''" "c \<noteq> CHR ''[''" "c \<noteq> dquote" "c \<noteq> CHR ''t''"
    "c \<noteq> CHR ''f''" "c \<noteq> CHR ''n''"
    by (auto simp: is_digit_def dquote_def)
  moreover have "parse_number (c # cs @ t) = Some (r, t)"
    using parse_number_show_int [OF assms(2), of "\<lfloor>r\<rfloor>"] rf eq by simp
  ultimately show ?thesis by (simp add: r eq)
qed

lemma parse_stringify:
  "json_ok v \<Longrightarrow> number_end t \<Longrightarrow> need v \<le> n \<Longrightarrow>
     parse_value n (stringify v @ t) = Some (v, t)"
  "elements_ok vs \<Longrightarrow> vs \<noteq> [] \<Longrightarrow> need_elements vs \<le> n \<Longrightarrow>
     parse_elements n (stringify_elements vs @ CHR '']'' # t) = Some (vs, t)"
  "members_ok ms \<Longrightarrow> ms \<noteq> [] \<Longrightarrow> need_members ms \<le> n \<Longrightarrow>
     parse_members n (stringify_members ms @ CHR ''}'' # t) = Some (ms, t)"
proof (induction v and vs and ms arbitrary: t n and t n and t n
       rule: stringify_stringify_elements_stringify_members.induct)
  case 1
  then obtain m where "n = Suc m" by (cases n) auto
  then show ?case by (simp add: skip_ws_def is_ws_def parse_literal_def dquote_def)
next
  case (2 b)
  then obtain m where "n = Suc m" by (cases n) auto
  then show ?case by (simp add: skip_ws_def is_ws_def parse_literal_def dquote_def)
next
  case (3 r)
  then obtain m where "n = Suc m" by (cases n) auto
  with 3 show ?case by (simp add: parse_value_number del: parse_value.simps)
next
  case (4 s)
  then obtain m where "n = Suc m" by (cases n) auto
  with 4 show ?case by (simp add: quote_def parse_chars_quote)
next
  case (5 vs)
  then obtain m where n: "n = Suc m" and m: "need_elements vs \<le> m" by (cases n) auto
  show ?case
  proof (cases vs)
    case Nil
    then show ?thesis by (simp add: n)
  next
    case (Cons w ws)
    obtain c cs where eq: "stringify w = c # cs" and c: "value_start c"
      using stringify_start [of w] by blast
    have start: "\<exists>u. stringify_elements vs = c # u"
      by (cases ws) (simp_all add: Cons eq)
    then obtain u where u: "stringify_elements vs = c # u" ..
    have "parse_elements m (stringify_elements vs @ CHR '']'' # t) = Some (vs, t)"
      using 5 m by (simp add: Cons)
    with c show ?thesis
      by (simp add: n u skip_ws_start) (simp add: value_start_def)
  qed
next
  case (6 ms)
  then obtain m where n: "n = Suc m" and m: "need_members ms \<le> m" by (cases n) auto
  from 6 have dist: "distinct (map fst ms)" by simp
  show ?case
  proof (cases ms)
    case Nil
    then show ?thesis by (simp add: n)
  next
    case (Cons p ps)
    have start: "\<exists>u. stringify_members ms = dquote # u"
      by (cases p; cases ps) (simp_all add: Cons quote_def)
    then obtain u where u: "stringify_members ms = dquote # u" ..
    have "parse_members m (stringify_members ms @ CHR ''}'' # t) = Some (ms, t)"
      using 6 m by (simp add: Cons)
    with dist show ?thesis
      by (simp add: n u object_of_members_distinct)
  qed
next
  case 7
  then show ?case by simp
next
  case (8 v)
  then obtain m where n: "n = Suc m" and m: "need v \<le> m" by (cases n) auto
  from 8 m have "parse_value m (stringify v @ CHR '']'' # t) = Some (v, CHR '']'' # t)" by simp
  then show ?case by (simp add: n)
next
  case (9 v w vs)
  then obtain m where n: "n = Suc m" and m: "need v \<le> m" "need_elements (w # vs) \<le> m"
    by (cases n) auto
  from 9 m have "parse_value m (stringify v @ CHR '','' # stringify_elements (w # vs) @ CHR '']'' # t)
      = Some (v, CHR '','' # stringify_elements (w # vs) @ CHR '']'' # t)" by simp
  moreover from 9 m have
    "parse_elements m (stringify_elements (w # vs) @ CHR '']'' # t) = Some (w # vs, t)" by simp
  ultimately show ?case by (simp add: n)
next
  case 10
  then show ?case by simp
next
  case (11 k v)
  then obtain m where n: "n = Suc m" and m: "need v \<le> m" by (cases n) auto
  from 11 m have "parse_value m (stringify v @ CHR ''}'' # t) = Some (v, CHR ''}'' # t)" by simp
  moreover from 11 have "parse_chars (concat (map escape_char k) @ dquote # CHR '':'' # stringify v @ CHR ''}'' # t)
      = Some (k, CHR '':'' # stringify v @ CHR ''}'' # t)"
    by (simp add: parse_chars_quote)
  ultimately show ?case by (simp add: n quote_def)
next
  case (12 k v p ps)
  then obtain m where n: "n = Suc m" and m: "need v \<le> m" "need_members (p # ps) \<le> m"
    by (cases n) auto
  let ?tail = "stringify_members (p # ps) @ CHR ''}'' # t"
  from 12 m have "parse_value m (stringify v @ CHR '','' # ?tail) = Some (v, CHR '','' # ?tail)"
    by simp
  moreover from 12 m have "parse_members m ?tail = Some (p # ps, t)" by simp
  moreover from 12 have "parse_chars (concat (map escape_char k) @ dquote # CHR '':'' # stringify v @ CHR '','' # ?tail)
      = Some (k, CHR '':'' # stringify v @ CHR '','' # ?tail)"
    by (simp add: parse_chars_quote)
  ultimately show ?case by (simp add: n quote_def)
qed

lemma need_le_length:
  "need v \<le> length (stringify v)"
  "need_elements vs \<le> Suc (length (stringify_elements vs))"
  "need_members ms \<le> Suc (length (stringify_members ms))"
proof (induction v and vs and ms rule: stringify_stringify_elements_stringify_members.induct)
  case (3 r)
  from show_number_start [of r] show ?case by auto
qed (simp_all add: quote_def)

theorem JSON_parse_stringify: "json_ok v \<Longrightarrow> JSON_parse (stringify v) = Some v"
  using parse_stringify(1) [of v "[]" "length (stringify v)"] need_le_length(1) [of v]
  by (simp add: JSON_parse_def)

section \<open>Mementos\<close>

lemma json_int_of_int [simp]: "json_int (JNum (of_int n)) = Some n"
  by (simp add: json_int_def is_integer_def)

lemma printable_keys [simp]:
  "printable ''i''" "printable ''j''" "printable ''cell''" "printable ''serial''"
  "printable ''coins''"
  by (simp_all add: printable_def)

lemma json_cell_cell_json [simp]: "json_cell (cell_json cell) = Some cell"
  by (simp add: json_cell_def cell_json_def)

lemma json_coin_coin_json [simp]: "json_coin (coin_json coin) = Some coin"
  by (simp add: json_coin_def coin_json_def)

lemma json_list_coins [simp]: "json_list json_coin (map coin_json coins) = Some coins"
  by (induction coins) simp_all

lemma json_cache_cache_json [simp]: "json_cache (cache_json cache) = Some cache"
  by (simp add: json_cache_def cache_json_def)

lemma json_ok_cell_json [simp]: "json_ok (cell_json cell)"
  by (simp add: cell_json_def is_integer_def)

lemma json_ok_coin_json [simp]: "json_ok (coin_json coin)"
  by (simp add: coin_json_def is_integer_def)

lemma elements_ok_coins [simp]: "elements_ok (map coin_json coins)"
  by (induction coins) simp_all

lemma json_ok_cache_json [simp]: "json_ok (cache_json cache)"
  by (simp add: cache_json_def)

lemma fromMomento_inverse: "fromMomento (toMomento c) = Inr c"
  by (simp add: fromMomento_def toMomento_def JSON_parse_stringify)

text \<open>
  Claim C2. For every cache value \<open>c\<close> (any cell, any sequence of coins, so also after
  coins were removed by \<open>collect\<close> or added by \<open>deposit\<close>), parsing the memento that
  \<open>toMomento\<close> writes for \<open>c\<close> succeeds and gives back \<open>c\<close>, field for field; in
  particular for the value of every cache object of every state.
\<close>

theorem fromMomento_toMomento:
  "fromMomento (toMomento c) = Inr c \<and>
   fromMomento (toMomento (readCache st cache)) = Inr (readCache st cache)"
  by (simp add: fromMomento_inverse)

section \<open>Visible cells\<close>

lemma grid_product:
  "concat (map (\<lambda>i. map (\<lambda>j. \<lparr>cell_i = i, cell_j = j\<rparr>) ys) xs) =
     map (\<lambda>(i, j). \<lparr>cell_i = i, cell_j = j\<rparr>) (List.product xs ys)"
  by (induction xs) simp_all

lemma length_grid:
  "length (concat (map (\<lambda>i. map (\<lambda>j. \<lparr>cell_i = i, cell_j = j\<rparr>) [c..d]) [a..b])) =
     nat (b - a + 1) * nat (d - c + 1)"
  by (simp add: grid_product)

lemma set_grid:
  "set (concat (map (\<lambda>i. map (\<lambda>j. \<lparr>cell_i = i, cell_j = j\<rparr>) [c..d]) [a..b])) =
     {cell. a \<le> cell_i cell \<and> cell_i cell \<le> b \<and> c \<le> cell_j cell \<and> cell_j cell \<le> d}"
proof (rule set_eqI)
  fix cell :: Cell
  obtain x y where cell: "cell = \<lparr>cell_i = x, cell_j = y\<rparr>" by (cases cell) auto
  show "cell \<in> set (concat (map (\<lambda>i. map (\<lambda>j. \<lparr>cell_i = i, cell_j = j\<rparr>) [c..d]) [a..b])) \<longleftrightarrow>
    cell \<in> {cell. a \<le> cell_i cell \<and> cell_i cell \<le> b \<and> c \<le> cell_j cell \<and> cell_j cell \<le> d}"
    by (auto simp: grid_product cell)
qed

lemma distinct_grid:
  "distinct (concat (map (\<lambda>i. map (\<lambda>j. \<lparr>cell_i = i, cell_j = j\<rparr>) [c..d]) [a..b]))"
  by (auto simp: grid_product distinct_map distinct_product inj_on_def)

subsection \<open>Counting in doubles\<close>

lemma js_plus_of_int:
  "\<bar>a + b\<bar> \<le> 2 ^ 53 \<Longrightarrow> js_plus (of_int a) (of_int b) = of_int (a + b)"
  using round_double_of_int [of "a + b"] by (simp add: js_plus_def)

lemma js_minus_of_int:
  "\<bar>a - b\<bar> \<le> 2 ^ 53 \<Longrightarrow> js_minus (of_int a) (of_int b) = of_int (a - b)"
  using round_double_of_int [of "a - b"] by (simp add: js_minus_def)

lemma js_plus_1: "\<bar>a + 1\<bar> \<le> 2 ^ 53 \<Longrightarrow> js_plus (of_int a) 1 = of_int (a + 1)"
  using js_plus_of_int [of a 1] by simp

lemma visible_row_exact:
  assumes "- (2 ^ 53) \<le> a" and "b \<le> 2 ^ 53"
  shows "visible_row i (of_int a) (of_int b) =
           Some (map (\<lambda>j. \<lparr>cell_i = \<lfloor>i\<rfloor>, cell_j = j\<rparr>) [a..b - 1])"
  using assms
proof (induction "nat (b - a)" arbitrary: a)
  case 0
  then have "\<not> a < b" by simp
  then show ?case by (subst visible_row.simps) simp
next
  case (Suc n)
  then have less: "a < b" and n: "n = nat (b - (a + 1))" by simp_all
  with Suc.prems have "\<bar>a + 1\<bar> \<le> 2 ^ 53" by simp
  then have next_j: "js_plus (of_int a) 1 = of_int (a + 1)" by (rule js_plus_1)
  from Suc.prems have "- (2 ^ 53) \<le> a + 1" by simp
  from Suc.hyps(1) [OF n this Suc.prems(2)]
  have rest: "visible_row i (of_int (a + 1)) (of_int b) =
      Some (map (\<lambda>j. \<lparr>cell_i = \<lfloor>i\<rfloor>, cell_j = j\<rparr>) [a + 1..b - 1])" .
  from less have "[a..b - 1] = a # [a + 1..b - 1]" by (simp add: upto_rec1)
  with less show ?case
    by (subst visible_row.simps) (simp add: next_j rest del: of_int_add)
qed

lemma visible_rows_exact:
  assumes "- (2 ^ 53) \<le> a" and "b \<le> 2 ^ 53" and "- (2 ^ 53) \<le> c" and "d \<le> 2 ^ 53"
  shows "visible_rows (of_int a) (of_int b) (of_int c) (of_int d) =
           Some (concat (map (\<lambda>i. map (\<lambda>j. \<lparr>cell_i = i, cell_j = j\<rparr>) [c..d - 1]) [a..b - 1]))"
  using assms(1,2)
proof (induction "nat (b - a)" arbitrary: a)
  case 0
  then have "\<not> a < b" by simp
  then show ?case by (subst visible_rows.simps) simp
next
  case (Suc n)
  then have less: "a < b" and n: "n = nat (b - (a + 1))" by simp_all
  with Suc.prems have "\<bar>a + 1\<bar> \<le> 2 ^ 53" by simp
  then have next_i: "js_plus (of_int a) 1 = of_int (a + 1)" by (rule js_plus_1)
  from Suc.prems have "- (2 ^ 53) \<le> a + 1" by simp
  from Suc.hyps(1) [OF n this Suc.prems(2)]
  have rest: "visible_rows (of_int (a + 1)) (of_int b) (of_int c) (of_int d) =
      Some (concat (map (\<lambda>i. map (\<lambda>j. \<lparr>cell_i = i, cell_j = j\<rparr>) [c..d - 1]) [a + 1..b - 1]))" .
  from less have "[a..b - 1] = a # [a + 1..b - 1]" by (simp add: upto_rec1)
  with less show ?case
    by (subst visible_rows.simps)
      (simp add: next_i rest visible_row_exact [OF assms(3,4)] del: of_int_add)
qed

lemma floor_round_double_bound:
  assumes "\<bar>x\<bar> \<le> of_int B" and "B \<le> 2 ^ 53"
  shows "\<bar>\<lfloor>round_double x\<rfloor>\<bar> \<le> B"
proof -
  from assms(1) have B0: "0 \<le> B" by (smt (verit) abs_ge_zero of_int_nonneg of_int_le_iff of_int_0 order_trans)
  with assms(2) have "\<bar>B\<bar> \<le> 2 ^ 53" "\<bar>- B\<bar> \<le> 2 ^ 53" by simp_all
  then have r: "round_double (of_int B) = of_int B" "round_double (of_int (- B)) = of_int (- B)"
    using round_double_of_int [of B] round_double_of_int [of "- B"] by simp_all
  from assms(1) have "x \<le> of_int B" "of_int (- B) \<le> x" by (simp_all add: abs_le_iff)
  then have "round_double x \<le> round_double (of_int B)" "round_double (of_int (- B)) \<le> round_double x"
    by (simp_all only: round_double_mono)
  then have "round_double x \<le> of_int B" "of_int (- B) \<le> round_double x" by (simp_all only: r)
  then have "\<lfloor>round_double x\<rfloor> \<le> B" "- B \<le> \<lfloor>round_double x\<rfloor>"
    by (simp_all add: floor_le_iff le_floor_iff)
  then show ?thesis by simp
qed

lemma getVisibleCells_eq:
  assumes "\<bar>lat coord / TILE_DEGREES\<bar> \<le> 2 ^ 53 - 8" and "\<bar>lng coord / TILE_DEGREES\<bar> \<le> 2 ^ 53 - 8"
  shows "getVisibleCells coord =
     Some (concat (map (\<lambda>i. map (\<lambda>j. \<lparr>cell_i = i, cell_j = j\<rparr>)
                        [\<lfloor>js_divide (lng coord) TILE_DEGREES\<rfloor> - NEIGHBORHOOD_SIZE ..
                         \<lfloor>js_divide (lng coord) TILE_DEGREES\<rfloor> + NEIGHBORHOOD_SIZE - 1])
                 [\<lfloor>js_divide (lat coord) TILE_DEGREES\<rfloor> - NEIGHBORHOOD_SIZE ..
                  \<lfloor>js_divide (lat coord) TILE_DEGREES\<rfloor> + NEIGHBORHOOD_SIZE - 1]))"
proof -
  define oi where "oi = \<lfloor>js_divide (lat coord) TILE_DEGREES\<rfloor>"
  define oj where "oj = \<lfloor>js_divide (lng coord) TILE_DEGREES\<rfloor>"
  from assms have a: "\<bar>lat coord / TILE_DEGREES\<bar> \<le> of_int (2 ^ 53 - 8)"
    "\<bar>lng coord / TILE_DEGREES\<bar> \<le> of_int (2 ^ 53 - 8)" by simp_all
  have b: "\<bar>oi\<bar> \<le> 2 ^ 53 - 8" "\<bar>oj\<bar> \<le> 2 ^ 53 - 8"
    unfolding oi_def oj_def js_divide_def
    using floor_round_double_bound [OF a(1)] floor_round_double_bound [OF a(2)] by simp_all
  then have lo: "js_minus (of_int oi) (of_int NEIGHBORHOOD_SIZE) = of_int (oi - NEIGHBORHOOD_SIZE)"
      "js_minus (of_int oj) (of_int NEIGHBORHOOD_SIZE) = of_int (oj - NEIGHBORHOOD_SIZE)"
    and hi: "js_plus (of_int oi) (of_int NEIGHBORHOOD_SIZE) = of_int (oi + NEIGHBORHOOD_SIZE)"
      "js_plus (of_int oj) (of_int NEIGHBORHOOD_SIZE) = of_int (oj + NEIGHBORHOOD_SIZE)"
    using js_minus_of_int [of oi NEIGHBORHOOD_SIZE] js_minus_of_int [of oj NEIGHBORHOOD_SIZE]
      js_plus_of_int [of oi NEIGHBORHOOD_SIZE] js_plus_of_int [of oj NEIGHBORHOOD_SIZE]
    by (simp_all add: NEIGHBORHOOD_SIZE_def)
  from b have "- (2 ^ 53) \<le> oi - NEIGHBORHOOD_SIZE" "oi + NEIGHBORHOOD_SIZE \<le> 2 ^ 53"
    "- (2 ^ 53) \<le> oj - NEIGHBORHOOD_SIZE" "oj + NEIGHBORHOOD_SIZE \<le> 2 ^ 53"
    by (simp_all add: NEIGHBORHOOD_SIZE_def)
  from visible_rows_exact [OF this]
  show ?thesis
    unfolding getVisibleCells_def Let_def oi_def [symmetric] oj_def [symmetric] lo hi .
qed


subsection \<open>Whatever is returned has every cell once\<close>

lemma counter_round_double_of_int: "counter (round_double (of_int n))"
proof -
  obtain m where "round_double (of_int n) = of_int m" using round_double_int_valued by blast
  moreover have "round_double (round_double (of_int n)) = round_double (of_int n)" by simp
  ultimately show ?thesis by (simp add: counter_def)
qed

lemma counter_next:
  assumes "counter j"
  shows "counter (js_plus j 1)" and "j \<le> js_plus j 1"
proof -
  from assms have j: "round_double j = j" "j = of_int \<lfloor>j\<rfloor>" by (simp_all add: counter_def)
  then have "j + 1 = of_int (\<lfloor>j\<rfloor> + 1)" by simp
  then show "counter (js_plus j 1)"
    unfolding js_plus_def by (simp only: counter_round_double_of_int)
  have "round_double j \<le> round_double (j + 1)" by (rule round_double_mono) simp
  then show "j \<le> js_plus j 1" by (simp add: js_plus_def j(1))
qed

lemma counter_less:
  assumes "counter x" and "counter y" and "x < y"
  shows "\<lfloor>x\<rfloor> < \<lfloor>y\<rfloor>"
proof -
  from assms have "(of_int \<lfloor>x\<rfloor> :: rat) < of_int \<lfloor>y\<rfloor>" by (simp add: counter_def)
  then show ?thesis by (simp only: of_int_less_iff)
qed

lemma visible_row_sound:
  assumes "visible_row i j hi = Some cells"
  shows "counter j \<longrightarrow>
           distinct cells \<and> (\<forall>c \<in> set cells. cell_i c = \<lfloor>i\<rfloor> \<and> \<lfloor>j\<rfloor> \<le> cell_j c)"
proof -
  define P where "P = (\<lambda>i j hi cells. visible_row i j hi = Some cells \<and>
      (counter j \<longrightarrow> distinct cells \<and> (\<forall>c \<in> set cells. cell_i c = \<lfloor>i\<rfloor> \<and> \<lfloor>j\<rfloor> \<le> cell_j c)))"
  have "P i j hi cells"
  proof (rule visible_row.raw_induct [where P = P, OF _ assms])
    fix f and a b h :: rat and ys :: "Cell list"
    assume ih: "\<And>a b h ys. f a b h = Some ys \<Longrightarrow> P a b h ys"
      and body: "(if b < h
          then Option.bind (f a (js_plus b 1) h)
                 (\<lambda>cells. Some (\<lparr>cell_i = \<lfloor>a\<rfloor>, cell_j = \<lfloor>b\<rfloor>\<rparr> # cells))
          else Some []) = Some ys"
    show "P a b h ys"
    proof (cases "b < h")
      case False
      with body have "ys = []" by simp
      with False show ?thesis unfolding P_def by (subst visible_row.simps) simp
    next
      case True
      with body obtain rest where rest: "f a (js_plus b 1) h = Some rest"
        and ys: "ys = \<lparr>cell_i = \<lfloor>a\<rfloor>, cell_j = \<lfloor>b\<rfloor>\<rparr> # rest"
        by (auto simp: bind_eq_Some_conv)
      from ih [OF rest] have run: "visible_row a (js_plus b 1) h = Some rest"
        and good: "counter (js_plus b 1) \<longrightarrow>
          distinct rest \<and> (\<forall>c \<in> set rest. cell_i c = \<lfloor>a\<rfloor> \<and> \<lfloor>js_plus b 1\<rfloor> \<le> cell_j c)"
        by (simp_all add: P_def)
      have here: "visible_row a b h = Some ys"
        using True by (subst visible_row.simps) (simp add: run ys)
      have "distinct ys \<and> (\<forall>c \<in> set ys. cell_i c = \<lfloor>a\<rfloor> \<and> \<lfloor>b\<rfloor> \<le> cell_j c)"
        if c: "counter b"
      proof -
        from counter_next [OF c] have n: "counter (js_plus b 1)" and le: "b \<le> js_plus b 1" .
        have "js_plus b 1 \<noteq> b"
        proof
          assume "js_plus b 1 = b"
          with run here have "rest = ys" by simp
          with ys show False by simp
        qed
        with le have "b < js_plus b 1" by simp
        from counter_less [OF c n this] have "\<lfloor>b\<rfloor> < \<lfloor>js_plus b 1\<rfloor>" .
        with good n show ?thesis by (auto simp: ys)
      qed
      with here show ?thesis by (simp add: P_def)
    qed
  qed
  then show ?thesis by (simp add: P_def)
qed

lemma visible_rows_sound:
  assumes "visible_rows i hi lo_j hi_j = Some cells"
  shows "counter i \<and> counter lo_j \<longrightarrow>
           distinct cells \<and> (\<forall>c \<in> set cells. \<lfloor>i\<rfloor> \<le> cell_i c)"
proof -
  define P where "P = (\<lambda>i hi lo_j hi_j cells. visible_rows i hi lo_j hi_j = Some cells \<and>
      (counter i \<and> counter lo_j \<longrightarrow> distinct cells \<and> (\<forall>c \<in> set cells. \<lfloor>i\<rfloor> \<le> cell_i c)))"
  have "P i hi lo_j hi_j cells"
  proof (rule visible_rows.raw_induct [where P = P, OF _ assms])
    fix f and a h lo up :: rat and ys :: "Cell list"
    assume ih: "\<And>a h lo up ys. f a h lo up = Some ys \<Longrightarrow> P a h lo up ys"
      and body: "(if a < h
          then Option.bind (visible_row a lo up)
                 (\<lambda>row. Option.bind (f (js_plus a 1) h lo up) (\<lambda>rows. Some (row @ rows)))
          else Some []) = Some ys"
    show "P a h lo up ys"
    proof (cases "a < h")
      case False
      with body have "ys = []" by simp
      with False show ?thesis unfolding P_def by (subst visible_rows.simps) simp
    next
      case True
      with body obtain row rest where row: "visible_row a lo up = Some row"
        and rest: "f (js_plus a 1) h lo up = Some rest"
        and ys: "ys = row @ rest"
        by (auto simp: bind_eq_Some_conv)
      from ih [OF rest] have run: "visible_rows (js_plus a 1) h lo up = Some rest"
        and good: "counter (js_plus a 1) \<and> counter lo \<longrightarrow>
          distinct rest \<and> (\<forall>c \<in> set rest. \<lfloor>js_plus a 1\<rfloor> \<le> cell_i c)"
        by (simp_all add: P_def)
      have here: "visible_rows a h lo up = Some ys"
        using True by (subst visible_rows.simps) (simp add: run row ys)
      have "distinct ys \<and> (\<forall>c \<in> set ys. \<lfloor>a\<rfloor> \<le> cell_i c)"
        if c: "counter a" "counter lo"
      proof -
        from counter_next [OF c(1)] have n: "counter (js_plus a 1)" and le: "a \<le> js_plus a 1" .
        from visible_row_sound [OF row] c(2)
        have r: "distinct row" "\<forall>c \<in> set row. cell_i c = \<lfloor>a\<rfloor>" by simp_all
        show ?thesis
        proof (cases "js_plus a 1 = a")
          case True
          with run here have "rest = ys" by simp
          with ys have "row = []" by simp
          with good n c(2) True ys show ?thesis by simp
        next
          case False
          with le have "a < js_plus a 1" by simp
          from counter_less [OF c(1) n this] have "\<lfloor>a\<rfloor> < \<lfloor>js_plus a 1\<rfloor>" .
          with good n c(2) r show ?thesis by (fastforce simp: ys)
        qed
      qed
      with here show ?thesis by (simp add: P_def)
    qed
  qed
  then show ?thesis by (simp add: P_def)
qed

lemma getVisibleCells_distinct:
  assumes "getVisibleCells coord = Some cells"
  shows "distinct cells"
proof -
  have "counter (js_minus (of_int \<lfloor>js_divide (lat coord) TILE_DEGREES\<rfloor>) (of_int NEIGHBORHOOD_SIZE))"
    "counter (js_minus (of_int \<lfloor>js_divide (lng coord) TILE_DEGREES\<rfloor>) (of_int NEIGHBORHOOD_SIZE))"
    unfolding js_minus_def by (simp_all only: counter_round_double_of_int flip: of_int_diff)
  with visible_rows_sound [OF assms [unfolded getVisibleCells_def Let_def]]
  show ?thesis by simp
qed

text \<open>A counter that no longer advances: the loop does not end.\<close>

lemma visible_rows_stuck:
  assumes "i < hi" and "js_plus i 1 = i" and "visible_row i lo_j hi_j = Some (c # row)"
  shows "visible_rows i hi lo_j hi_j = None"
proof (cases "visible_rows i hi lo_j hi_j")
  case None
  then show ?thesis .
next
  case (Some cells)
  have "visible_rows i hi lo_j hi_j =
      Option.bind (visible_rows i hi lo_j hi_j) (\<lambda>rows. Some ((c # row) @ rows))"
    using assms by (subst visible_rows.simps) simp
  with Some have "Some cells = Some ((c # row) @ cells)" by simp
  then show ?thesis by simp
qed

subsection \<open>The constants\<close>

lemma TILE_DEGREES_eq: "TILE_DEGREES = 7378697629483821 / 2 ^ 66"
proof -
  have "round_double (1 / 10000) = of_int 7378697629483821 * 2 powi (- 14 - 52)"
    by (rule round_double_eqI) simp_all
  then show ?thesis by (simp add: TILE_DEGREES_def)
qed

lemma CACHE_SPAWN_PROBABILITY_eq: "CACHE_SPAWN_PROBABILITY = 3602879701896397 / 2 ^ 55"
proof -
  have "round_double (1 / 10) = of_int 7205759403792794 * 2 powi (- 4 - 52)"
    by (rule round_double_eqI) simp_all
  then show ?thesis by (simp add: CACHE_SPAWN_PROBABILITY_def)
qed

lemma round_double_abs_le:
  assumes "\<bar>x\<bar> \<le> of_int B" and "B \<le> 2 ^ 53"
  shows "\<bar>round_double x\<bar> \<le> of_int B"
proof -
  from assms(1) have "0 \<le> (of_int B :: rat)" by linarith
  then have "0 \<le> B" by simp
  with assms(2) have "\<bar>B\<bar> \<le> 2 ^ 53" by simp
  then have r: "round_double (of_int B) = of_int B" by (rule round_double_of_int)
  from assms(1) have "x \<le> of_int B" "- of_int B \<le> x" by (simp_all add: abs_le_iff)
  then have "round_double x \<le> round_double (of_int B)"
    "round_double (- of_int B) \<le> round_double x"
    by (simp_all only: round_double_mono)
  then have "round_double x \<le> of_int B" "- of_int B \<le> round_double x"
    by (simp_all only: round_double_minus r)
  then show ?thesis by (simp add: abs_le_iff)
qed

lemma home_in_range:
  "\<bar>lat initialPlayerLocation / TILE_DEGREES\<bar> \<le> 2 ^ 53 - 8"
  "\<bar>lng initialPlayerLocation / TILE_DEGREES\<bar> \<le> 2 ^ 53 - 8"
proof -
  have "\<bar>round_double 36.98949379578401\<bar> \<le> of_int 37"
    "\<bar>round_double (- 122.06277128548504)\<bar> \<le> of_int 123"
    by (rule round_double_abs_le; simp)+
  then have "\<bar>lat initialPlayerLocation\<bar> \<le> 37" "\<bar>lng initialPlayerLocation\<bar> \<le> 123"
    by (simp_all add: initialPlayerLocation_def)
  then have "\<bar>lat initialPlayerLocation\<bar> / TILE_DEGREES \<le> 37 / TILE_DEGREES"
    "\<bar>lng initialPlayerLocation\<bar> / TILE_DEGREES \<le> 123 / TILE_DEGREES"
    by (simp_all add: divide_right_mono TILE_DEGREES_eq)
  then show "\<bar>lat initialPlayerLocation / TILE_DEGREES\<bar> \<le> 2 ^ 53 - 8"
    "\<bar>lng initialPlayerLocation / TILE_DEGREES\<bar> \<le> 2 ^ 53 - 8"
    by (simp_all add: TILE_DEGREES_eq)
qed

lemma initialPlayerLocation_eq:
  "initialPlayerLocation =
     \<lparr>lat = 5205808452353629 / 2 ^ 47, lng = - (8589403926205008 / 2 ^ 46)\<rparr>"
proof -
  have "round_double 36.98949379578401 = of_int 5205808452353629 * 2 powi (5 - 52)"
    by (rule round_double_eqI) simp_all
  moreover have "round_double (- 122.06277128548504) =
      of_int (- 8589403926205008) * 2 powi (6 - 52)"
    by (rule round_double_eqI) simp_all
  ultimately show ?thesis by (simp add: initialPlayerLocation_def)
qed

lemma home_offsets:
  "\<lfloor>js_divide (lat initialPlayerLocation) TILE_DEGREES\<rfloor> = 369894"
  "\<lfloor>js_divide (lng initialPlayerLocation) TILE_DEGREES\<rfloor> = - 1220628"
proof -
  show "\<lfloor>js_divide (lat initialPlayerLocation) TILE_DEGREES\<rfloor> = 369894"
    unfolding js_divide_def
  proof (rule floor_round_double)
    show "of_int 369894 \<le> lat initialPlayerLocation / TILE_DEGREES"
      by (simp add: initialPlayerLocation_eq TILE_DEGREES_eq)
    show "lat initialPlayerLocation / TILE_DEGREES \<le> of_int 11836639 * 2 powi (- 5)"
      by (simp add: initialPlayerLocation_eq TILE_DEGREES_eq)
  qed simp_all
  show "\<lfloor>js_divide (lng initialPlayerLocation) TILE_DEGREES\<rfloor> = - 1220628"
    unfolding js_divide_def
  proof (rule floor_round_double)
    show "of_int (- 1220628) \<le> lng initialPlayerLocation / TILE_DEGREES"
      by (simp add: initialPlayerLocation_eq TILE_DEGREES_eq)
    show "lng initialPlayerLocation / TILE_DEGREES \<le> of_int (- 2441255) * 2 powi (- 1)"
      by (simp add: initialPlayerLocation_eq TILE_DEGREES_eq)
  qed simp_all
qed

subsection \<open>The window\<close>

lemma getVisibleCells_set:
  assumes "\<bar>lat coord / TILE_DEGREES\<bar> \<le> 2 ^ 53 - 8" and "\<bar>lng coord / TILE_DEGREES\<bar> \<le> 2 ^ 53 - 8"
  shows "\<exists>cells. getVisibleCells coord = Some cells \<and>
     set cells =
       {cell. \<lfloor>js_divide (lat coord) TILE_DEGREES\<rfloor> - NEIGHBORHOOD_SIZE \<le> cell_i cell \<and>
              cell_i cell < \<lfloor>js_divide (lat coord) TILE_DEGREES\<rfloor> + NEIGHBORHOOD_SIZE \<and>
              \<lfloor>js_divide (lng coord) TILE_DEGREES\<rfloor> - NEIGHBORHOOD_SIZE \<le> cell_j cell \<and>
              cell_j cell < \<lfloor>js_divide (lng coord) TILE_DEGREES\<rfloor> + NEIGHBORHOOD_SIZE}"
proof -
  have "set (concat (map (\<lambda>i. map (\<lambda>j. \<lparr>cell_i = i, cell_j = j\<rparr>)
                          [\<lfloor>js_divide (lng coord) TILE_DEGREES\<rfloor> - NEIGHBORHOOD_SIZE ..
                           \<lfloor>js_divide (lng coord) TILE_DEGREES\<rfloor> + NEIGHBORHOOD_SIZE - 1])
                   [\<lfloor>js_divide (lat coord) TILE_DEGREES\<rfloor> - NEIGHBORHOOD_SIZE ..
                    \<lfloor>js_divide (lat coord) TILE_DEGREES\<rfloor> + NEIGHBORHOOD_SIZE - 1])) =
       {cell. \<lfloor>js_divide (lat coord) TILE_DEGREES\<rfloor> - NEIGHBORHOOD_SIZE \<le> cell_i cell \<and>
              cell_i cell < \<lfloor>js_divide (lat coord) TILE_DEGREES\<rfloor> + NEIGHBORHOOD_SIZE \<and>
              \<lfloor>js_divide (lng coord) TILE_DEGREES\<rfloor> - NEIGHBORHOOD_SIZE \<le> cell_j cell \<and>
              cell_j cell < \<lfloor>js_divide (lng coord) TILE_DEGREES\<rfloor> + NEIGHBORHOOD_SIZE}"
    by (subst set_grid) auto
  with getVisibleCells_eq [OF assms] show ?thesis by simp
qed

lemma getVisibleCells_length:
  assumes "\<bar>lat coord / TILE_DEGREES\<bar> \<le> 2 ^ 53 - 8" and "\<bar>lng coord / TILE_DEGREES\<bar> \<le> 2 ^ 53 - 8"
  shows "\<exists>cells. getVisibleCells coord = Some cells \<and>
     int (length cells) = (2 * NEIGHBORHOOD_SIZE)\<^sup>2"
proof -
  have "int (length (concat (map (\<lambda>i. map (\<lambda>j. \<lparr>cell_i = i, cell_j = j\<rparr>)
                          [\<lfloor>js_divide (lng coord) TILE_DEGREES\<rfloor> - NEIGHBORHOOD_SIZE ..
                           \<lfloor>js_divide (lng coord) TILE_DEGREES\<rfloor> + NEIGHBORHOOD_SIZE - 1])
                   [\<lfloor>js_divide (lat coord) TILE_DEGREES\<rfloor> - NEIGHBORHOOD_SIZE ..
                    \<lfloor>js_divide (lat coord) TILE_DEGREES\<rfloor> + NEIGHBORHOOD_SIZE - 1]))) =
      (2 * NEIGHBORHOOD_SIZE)\<^sup>2"
    by (subst length_grid) (simp add: NEIGHBORHOOD_SIZE_def)
  with getVisibleCells_eq [OF assms] show ?thesis by simp
qed

lemma home_visible:
  "\<exists>cells. getVisibleCells initialPlayerLocation = Some cells \<and> cells \<noteq> [] \<and> distinct cells"
proof -
  from getVisibleCells_length [OF home_in_range] obtain cells where
    c: "getVisibleCells initialPlayerLocation = Some cells"
    "int (length cells) = (2 * NEIGHBORHOOD_SIZE)\<^sup>2" by blast
  from c(2) have "cells \<noteq> []" by (auto simp: NEIGHBORHOOD_SIZE_def)
  with c(1) getVisibleCells_distinct [OF c(1)] show ?thesis by blast
qed

text \<open>
  Claim C10. \<open>getVisibleCells\<close> is a function of the location alone (it neither takes nor
  returns the game state). Let \<open>o\<^sub>i\<close> and \<open>o\<^sub>j\<close> be \<^verbatim>\<open>Math.floor(lat / TILE_DEGREES)\<close> and
  \<^verbatim>\<open>Math.floor(lng / TILE_DEGREES)\<close>, the quotients being those of doubles. When the exact
  quotients are at most \<open>2\<^sup>5\<^sup>3 - 8\<close> in absolute value (for a latitude or longitude on Earth
  they are below \<open>2 * 10\<^sup>6\<close>), \<open>getVisibleCells\<close> returns, row by row, the cells \<open>(i, j)\<close> with
  \<open>o\<^sub>i - NEIGHBORHOOD_SIZE \<le> i < o\<^sub>i + NEIGHBORHOOD_SIZE\<close> and likewise for \<open>j\<close>: each of them
  once, \<open>(2 * NEIGHBORHOOD_SIZE)\<^sup>2\<close> cells in all.
\<close>

theorem getVisibleCells_window:
  assumes "\<bar>lat coord / TILE_DEGREES\<bar> \<le> 2 ^ 53 - 8" and "\<bar>lng coord / TILE_DEGREES\<bar> \<le> 2 ^ 53 - 8"
  shows "\<exists>cells.
     getVisibleCells coord = Some cells \<and>
     cells =
       concat (map (\<lambda>i. map (\<lambda>j. \<lparr>cell_i = i, cell_j = j\<rparr>)
                          [\<lfloor>js_divide (lng coord) TILE_DEGREES\<rfloor> - NEIGHBORHOOD_SIZE ..
                           \<lfloor>js_divide (lng coord) TILE_DEGREES\<rfloor> + NEIGHBORHOOD_SIZE - 1])
                   [\<lfloor>js_divide (lat coord) TILE_DEGREES\<rfloor> - NEIGHBORHOOD_SIZE ..
                    \<lfloor>js_divide (lat coord) TILE_DEGREES\<rfloor> + NEIGHBORHOOD_SIZE - 1]) \<and>
     set cells =
       {cell. \<lfloor>js_divide (lat coord) TILE_DEGREES\<rfloor> - NEIGHBORHOOD_SIZE \<le> cell_i cell \<and>
              cell_i cell < \<lfloor>js_divide (lat coord) TILE_DEGREES\<rfloor> + NEIGHBORHOOD_SIZE \<and>
              \<lfloor>js_divide (lng coord) TILE_DEGREES\<rfloor> - NEIGHBORHOOD_SIZE \<le> cell_j cell \<and>
              cell_j cell < \<lfloor>js_divide (lng coord) TILE_DEGREES\<rfloor> + NEIGHBORHOOD_SIZE} \<and>
     distinct cells \<and>
     int (length cells) = (2 * NEIGHBORHOOD_SIZE)\<^sup>2"
proof -
  from getVisibleCells_set [OF assms] getVisibleCells_length [OF assms]
    getVisibleCells_eq [OF assms]
  obtain cells where c: "getVisibleCells coord = Some cells"
    "cells =
       concat (map (\<lambda>i. map (\<lambda>j. \<lparr>cell_i = i, cell_j = j\<rparr>)
                          [\<lfloor>js_divide (lng coord) TILE_DEGREES\<rfloor> - NEIGHBORHOOD_SIZE ..
                           \<lfloor>js_divide (lng coord) TILE_DEGREES\<rfloor> + NEIGHBORHOOD_SIZE - 1])
                   [\<lfloor>js_divide (lat coord) TILE_DEGREES\<rfloor> - NEIGHBORHOOD_SIZE ..
                    \<lfloor>js_divide (lat coord) TILE_DEGREES\<rfloor> + NEIGHBORHOOD_SIZE - 1])"
    "set cells =
       {cell. \<lfloor>js_divide (lat coord) TILE_DEGREES\<rfloor> - NEIGHBORHOOD_SIZE \<le> cell_i cell \<and>
              cell_i cell < \<lfloor>js_divide (lat coord) TILE_DEGREES\<rfloor> + NEIGHBORHOOD_SIZE \<and>
              \<lfloor>js_divide (lng coord) TILE_DEGREES\<rfloor> - NEIGHBORHOOD_SIZE \<le> cell_j cell \<and>
              cell_j cell < \<lfloor>js_divide (lng coord) TILE_DEGREES\<rfloor> + NEIGHBORHOOD_SIZE}"
    "int (length cells) = (2 * NEIGHBORHOOD_SIZE)\<^sup>2"
    by auto
  from getVisibleCells_distinct [OF c(1)] c show ?thesis by (intro exI [of _ cells] conjI)
qed

theorem getVisibleCells_window_witness:
  "\<bar>lat initialPlayerLocation / TILE_DEGREES\<bar> \<le> 2 ^ 53 - 8 \<and>
   \<bar>lng initialPlayerLocation / TILE_DEGREES\<bar> \<le> 2 ^ 53 - 8 \<and>
   (\<exists>cells.
      getVisibleCells initialPlayerLocation = Some cells \<and>
      cells =
        concat (map (\<lambda>i. map (\<lambda>j. \<lparr>cell_i = i, cell_j = j\<rparr>) [- 1220636 .. - 1220621])
                  [369886 .. 369901]) \<and>
      set cells =
        {cell. 369886 \<le> cell_i cell \<and> cell_i cell < 369902 \<and>
               - 1220636 \<le> cell_j cell \<and> cell_j cell < - 1220620} \<and>
      distinct cells \<and> int (length cells) = 256)"
  using getVisibleCells_window [OF home_in_range] home_in_range
  by (simp add: home_offsets NEIGHBORHOOD_SIZE_def)

text \<open>
  The claim as stated, for every location, fails. At the latitude \<open>10\<^sup>1\<^sup>5\<close> the offset is
  \<open>10\<^sup>1\<^sup>9\<close>, where the doubles are 2048 apart: \<^verbatim>\<open>offset.i - 8\<close> and \<^verbatim>\<open>offset.i + 8\<close> are
  both the offset itself, the outer loop does not run, and no cell is returned.
\<close>

theorem getVisibleCells_window_counterexample:
  "getVisibleCells \<lparr>lat = 10 ^ 15, lng = 0\<rparr> = Some [] \<and>
   int (length ([] :: Cell list)) \<noteq> (2 * NEIGHBORHOOD_SIZE)\<^sup>2"
proof -
  have "round_double (10 ^ 15 / TILE_DEGREES) = of_int 4882812500000000 * 2 powi (63 - 52)"
    by (rule round_double_eqI) (simp_all add: TILE_DEGREES_eq)
  then have o: "of_int \<lfloor>js_divide (10 ^ 15) TILE_DEGREES\<rfloor> = (10 ^ 19 :: rat)"
    by (simp add: js_divide_def)
  have "round_double (10 ^ 19 - 8) = of_int 4882812500000000 * 2 powi (63 - 52)"
    by (rule round_double_eqI) simp_all
  then have lo: "js_minus (10 ^ 19) 8 = 10 ^ 19" by (simp add: js_minus_def)
  have "round_double (10 ^ 19 + 8) = of_int 4882812500000000 * 2 powi (63 - 52)"
    by (rule round_double_eqI) simp_all
  then have hi: "js_plus (10 ^ 19) 8 = 10 ^ 19" by (simp add: js_plus_def)
  have "visible_rows (10 ^ 19) (10 ^ 19) lo_j hi_j = Some []" for lo_j hi_j
    by (subst visible_rows.simps) simp
  then have "getVisibleCells \<lparr>lat = 10 ^ 15, lng = 0\<rparr> = Some []"
    unfolding getVisibleCells_def Let_def by (simp only: LatLng.simps o NEIGHBORHOOD_SIZE_def of_int_numeral lo hi)
  then show ?thesis by (simp add: NEIGHBORHOOD_SIZE_def)
qed

text \<open>
  The quotient of doubles is not the floor's exact argument. At the double nearest to
  \<open>36.9803\<close> the exact quotient by \<open>TILE_DEGREES\<close> is below 369803 and the quotient of
  doubles is 369803, so the window starts at row 369795.
\<close>

lemma offset_at_tile_boundary:
  "\<lfloor>js_divide (round_double 36.9803) TILE_DEGREES\<rfloor> = 369803 \<and>
   \<lfloor>round_double 36.9803 / TILE_DEGREES\<rfloor> = 369802"
proof -
  define x :: rat where "x = round_double 36.9803"
  have "round_double 36.9803 = of_int 5204514540626536 * 2 powi (5 - 52)"
    by (rule round_double_eqI) simp_all
  then have l: "x = 5204514540626536 / 2 ^ 47" by (simp add: x_def)
  have "round_double (x / TILE_DEGREES) = of_int 6353167163850752 * 2 powi (18 - 52)"
    by (rule round_double_eqI) (simp_all add: l TILE_DEGREES_eq)
  then have a: "\<lfloor>js_divide x TILE_DEGREES\<rfloor> = 369803"
    by (simp add: js_divide_def)
  have b: "\<lfloor>x / TILE_DEGREES\<rfloor> = 369802"
    by (intro floor_unique) (simp_all add: l TILE_DEGREES_eq)
  from a b show ?thesis unfolding x_def by (rule conjI)
qed

text \<open>
  And a call that does not return: at the latitude \<open>2\<^sup>5\<^sup>3 * TILE_DEGREES\<close> the offset is
  \<open>2\<^sup>5\<^sup>3\<close>, the outer loop counts from \<open>2\<^sup>5\<^sup>3 - 8\<close> up to \<open>2\<^sup>5\<^sup>3\<close>, and there \<^verbatim>\<open>i++\<close> leaves
  \<open>i\<close> as it is (\<open>2\<^sup>5\<^sup>3 + 1\<close> is no double, and of its two neighbours \<open>2\<^sup>5\<^sup>3\<close> has the even
  significand) while \<open>i\<close> is below \<^verbatim>\<open>offset.i + 8\<close>.
\<close>

lemma visible_rows_None_back:
  assumes "visible_rows (of_int b) hi lo_j hi_j = None"
    and "a \<le> b" and "- (2 ^ 53) \<le> a" and "b \<le> 2 ^ 53" and "of_int b \<le> hi"
  shows "visible_rows (of_int a) hi lo_j hi_j = None"
  using assms(2,3)
proof (induction "nat (b - a)" arbitrary: a)
  case 0
  then have "a = b" by simp
  with assms(1) show ?case by simp
next
  case (Suc n)
  then have less: "a < b" and n: "n = nat (b - (a + 1))" by simp_all
  with Suc.prems assms(4) have "\<bar>a + 1\<bar> \<le> 2 ^ 53" by simp
  then have next_i: "js_plus (of_int a) 1 = of_int (a + 1)" by (rule js_plus_1)
  from less Suc.prems have "a + 1 \<le> b" "- (2 ^ 53) \<le> a + 1" by simp_all
  from Suc.hyps(1) [OF n this]
  have rest: "visible_rows (of_int (a + 1)) hi lo_j hi_j = None" .
  from less have "(of_int a :: rat) < of_int b" by (simp only: of_int_less_iff)
  with assms(5) have "of_int a < hi" by simp
  then show ?case
    by (subst visible_rows.simps) (simp add: next_i rest del: of_int_add split: Option.bind_split)
qed

lemma getVisibleCells_no_return:
  "getVisibleCells \<lparr>lat = 2 ^ 53 * TILE_DEGREES, lng = 0\<rparr> = None"
proof -
  have t: "TILE_DEGREES \<noteq> 0" by (simp add: TILE_DEGREES_eq)
  have "round_double (of_int (2 ^ 53)) = of_int (2 ^ 53)" by (rule round_double_of_int) simp
  with t have oi: "of_int \<lfloor>js_divide (2 ^ 53 * TILE_DEGREES) TILE_DEGREES\<rfloor> = (of_int (2 ^ 53) :: rat)"
    by (simp add: js_divide_def)
  have oj: "of_int \<lfloor>js_divide 0 TILE_DEGREES\<rfloor> = (of_int 0 :: rat)" by (simp add: js_divide_def)
  have lo_i: "js_minus (of_int (2 ^ 53)) (of_int 8) = of_int (2 ^ 53 - 8)"
    by (rule js_minus_of_int) simp
  have "round_double (of_int (2 ^ 52 + 4) * 2 powi 1) = of_int (2 ^ 52 + 4) * 2 powi 1"
    by (rule round_double_representable) simp_all
  then have hi_i: "js_plus (of_int (2 ^ 53)) (of_int 8) = of_int (2 ^ 53 + 8)"
    by (simp add: js_plus_def)
  have lo_j: "js_minus (of_int 0) (of_int 8) = of_int (- 8)"
    using js_minus_of_int [of 0 8] by simp
  have hi_j: "js_plus (of_int 0) (of_int 8) = of_int 8"
    using js_plus_of_int [of 0 8] by simp
  have "2 powi 53 \<le> \<bar>2 ^ 53 + 1 :: rat\<bar>" "\<bar>2 ^ 53 + 1 :: rat\<bar> < 2 powi (53 + 1)" by simp_all
  from round_double_normal [OF this]
  have "round_double (2 ^ 53 + 1) = of_int (round_half_even ((2 ^ 53 + 1) / 2 powi 1)) * 2 powi 1"
    by simp
  moreover have "((2 ^ 53 + 1) / 2 powi 1 :: rat) = of_int (2 ^ 52) + 1 / 2" by simp
  ultimately have "round_double (2 ^ 53 + 1) = of_int (2 ^ 53)"
    by (simp only: round_half_even_tie) simp
  then have stuck: "js_plus (of_int (2 ^ 53)) 1 = of_int (2 ^ 53)" by (simp add: js_plus_def)
  have row: "visible_row (of_int (2 ^ 53)) (of_int (- 8)) (of_int 8) =
      Some (\<lparr>cell_i = 2 ^ 53, cell_j = - 8\<rparr> #
            map (\<lambda>j. \<lparr>cell_i = 2 ^ 53, cell_j = j\<rparr>) [- 7 .. 7])"
    by (subst visible_row_exact) (simp_all add: upto_rec1 [of "- 8" 7])
  have "visible_rows (of_int (2 ^ 53)) (of_int (2 ^ 53 + 8)) (of_int (- 8)) (of_int 8) = None"
    by (rule visible_rows_stuck [OF _ stuck row]) simp
  then have "visible_rows (of_int (2 ^ 53 - 8)) (of_int (2 ^ 53 + 8)) (of_int (- 8)) (of_int 8) = None"
    by (rule visible_rows_None_back) simp_all
  then show ?thesis
    unfolding getVisibleCells_def Let_def
    by (simp only: LatLng.simps oi oj NEIGHBORHOOD_SIZE_def lo_i hi_i lo_j hi_j)
qed

section \<open>The store\<close>

lemma newCoins_eq:
  "newCoins coins st =
     ([nextRef st..<nextRef st + length coins],
      st\<lparr>coinHeap := (\<lambda>r. if nextRef st \<le> r \<and> r < nextRef st + length coins
                            then coins ! (r - nextRef st) else coinHeap st r),
         nextRef := nextRef st + length coins\<rparr>)"
proof (induction coins arbitrary: st)
  case Nil
  show ?case by (auto simp: fun_eq_iff intro!: game.equality)
next
  case (Cons coin coins)
  have "[nextRef st..<Suc (nextRef st + length coins)] =
      nextRef st # [Suc (nextRef st)..<Suc (nextRef st + length coins)]"
    by (simp add: upt_rec)
  then show ?case
    by (auto simp: Cons newCoin_def fun_eq_iff nth_Cons' intro!: game.equality)
qed

lemma generateCoins_loop_eq:
  "generateCoins_loop cell cache k n st =
     st\<lparr>coinHeap := (\<lambda>r. if nextRef st \<le> r \<and> r < nextRef st + nat (n - k)
                           then \<lparr>coin_cell = cell, coin_serial = k + int (r - nextRef st)\<rparr>
                           else coinHeap st r),
        cacheHeap := (cacheHeap st)
          (cache := (cacheHeap st cache)
             \<lparr>coin_refs := coin_refs (cacheHeap st cache) @ [nextRef st..<nextRef st + nat (n - k)]\<rparr>),
        nextRef := nextRef st + nat (n - k)\<rparr>"
proof (induction "nat (n - k)" arbitrary: k st)
  case 0
  then have "\<not> k < n" by simp
  with 0 show ?case
    by (subst generateCoins_loop.simps) (auto simp: fun_eq_iff intro!: game.equality)
next
  case (Suc m)
  then have less: "k < n" and m: "m = nat (n - (k + 1))" by simp_all
  let ?st1 = "st\<lparr>coinHeap := (coinHeap st)(nextRef st := \<lparr>coin_cell = cell, coin_serial = k\<rparr>),
                 nextRef := Suc (nextRef st)\<rparr>"
  have step: "generateCoins_loop cell cache k n st =
      generateCoins_loop cell cache (k + 1) n (pushCoin cache (nextRef st) ?st1)"
    using less by (subst generateCoins_loop.simps) (simp add: newCoin_def)
  have upt: "[nextRef st..<nextRef st + Suc m] = nextRef st # [Suc (nextRef st)..<Suc (nextRef st) + m]"
    by (simp add: upt_rec)
  show ?case
    unfolding step Suc.hyps(1) [OF m] Suc.hyps(2) [symmetric] m [symmetric] upt
    by (rule game.equality) (auto simp: pushCoin_def fun_eq_iff)
qed

section \<open>Generated coins\<close>

lemma floor_rat_numeral: "\<lfloor>(numeral a :: rat) / numeral b\<rfloor> = numeral a div numeral b"
  using floor_divide_of_int_eq [of "numeral a" "numeral b", where ?'a = rat] by simp

lemma map_upt_shift: "map g [n..<n + m] = map (\<lambda>s. g (n + s)) [0..<m]"
  by (induction m) simp_all

lemma round_double_1 [simp]: "round_double 1 = 1"
  using round_double_of_int [of 1] by simp

subsection \<open>The count\<close>

text \<open>
  For a double \<open>l\<close> in \<open>[0, 1)\<close>, adding 1 to the double product \<open>l * 3\<close> never rounds up
  to the next integer: the product would have to be the double just below 1 or just below
  2, and the product of a double with 3 is neither (a tie goes to the even neighbour, and
  \<open>2\<^sup>5\<^sup>3 - 1\<close> is not a multiple of 3).
\<close>

lemma not_tie_up:
  "round_half_even (of_int (3 * n) / 2) \<noteq> 2 ^ 53 - 1"
proof (cases "even n")
  case True
  then obtain k where "n = 2 * k" ..
  then have "(of_int (3 * n) / 2 :: rat) = of_int (3 * k)" by simp
  then have "round_half_even (of_int (3 * n) / 2) = 3 * k" by (simp only: round_half_even_of_int)
  moreover have "3 * k \<noteq> (9007199254740991 :: int)" by presburger
  then have "3 * k \<noteq> (2 ^ 53 - 1 :: int)" by simp
  ultimately show ?thesis by simp
next
  case False
  then obtain k where "n = 2 * k + 1" by (auto elim: oddE)
  then have "(of_int (3 * n) / 2 :: rat) = of_int (3 * k + 1) + 1 / 2" by simp
  then have "even (round_half_even (of_int (3 * n) / 2))" by (simp only: round_half_even_half)
  moreover have "odd (2 ^ 53 - 1 :: int)" by simp
  ultimately show ?thesis by metis
qed

lemma floor_js_plus_1:
  assumes lo: "of_int n \<le> y + 1" and hi: "y + 1 \<le> of_int m * 2 powi k"
    and m: "\<bar>m\<bar> \<le> 2 ^ 53" and k: "- 1074 \<le> k" and n: "\<bar>n\<bar> \<le> 2 ^ 53"
    and less: "of_int m * 2 powi k < (of_int n + 1 :: rat)"
  shows "\<lfloor>js_plus y 1\<rfloor> = n"
proof -
  from lo have "of_int n * 2 powi 0 \<le> y + 1" by simp
  from round_double_ge [OF this n] have "of_int n \<le> round_double (y + 1)" by simp
  moreover from round_double_le [OF hi m k] less have "round_double (y + 1) < of_int n + 1" by simp
  ultimately show ?thesis unfolding js_plus_def by (rule floor_unique)
qed

lemma numCoins_small:
  assumes "0 \<le> l" and "l < 1 / 4"
  shows "\<lfloor>js_plus (js_times l 3) 1\<rfloor> = 1 \<and> \<lfloor>js_times l 3\<rfloor> = 0"
proof -
  define y where "y = js_times l 3"
  have y0: "0 \<le> y" unfolding y_def js_times_def using assms(1) by (intro round_double_nonneg) simp
  have "l * 3 \<le> of_int 3 * 2 powi (- 2)" using assms(2) by simp
  then have "y \<le> of_int 3 * 2 powi (- 2)"
    unfolding y_def js_times_def by (rule round_double_le) simp_all
  then have y1: "y \<le> 3 / 4" by simp
  have "\<lfloor>js_plus y 1\<rfloor> = 1"
  proof (rule floor_js_plus_1)
    show "of_int 1 \<le> y + 1" using y0 by simp
    show "y + 1 \<le> of_int 7 * 2 powi (- 2)" using y1 by simp
  qed simp_all
  moreover have "\<lfloor>y\<rfloor> = 0" using y0 y1 by (intro floor_unique) simp_all
  ultimately show ?thesis by (simp add: y_def)
qed

lemma numCoins_third:
  assumes d: "round_double l = l" and "1 / 4 \<le> l" and "l < 1 / 2"
  shows "\<lfloor>js_plus (js_times l 3) 1\<rfloor> = \<lfloor>js_times l 3\<rfloor> + 1 \<and>
         0 \<le> \<lfloor>js_times l 3\<rfloor> \<and> \<lfloor>js_times l 3\<rfloor> < 3"
proof -
  define y where "y = js_times l 3"
  from assms(2,3) have "2 powi (- 2) \<le> \<bar>l\<bar>" "\<bar>l\<bar> < 2 powi (- 2 + 1)" by simp_all
  from double_on_grid [OF d this] obtain n where n: "l = of_int n * 2 powi (- 54)" by auto
  show ?thesis
  proof (cases "l * 3 < 1")
    case True
    with assms(2) have "2 powi (- 1) \<le> \<bar>l * 3\<bar>" "\<bar>l * 3\<bar> < 2 powi (- 1 + 1)" by simp_all
    from round_double_normal [OF this]
    have "y = of_int (round_half_even (l * 3 / 2 powi (- 53))) * 2 powi (- 53)"
      by (simp add: y_def js_times_def)
    moreover have q: "l * 3 / 2 powi (- 53) = of_int (3 * n) / 2" by (simp add: n)
    ultimately have y: "y = of_int (round_half_even (of_int (3 * n) / 2)) * 2 powi (- 53)"
      by (simp only:)
    define m where "m = round_half_even (of_int (3 * n) / 2)"
    from True have "l * 3 / 2 powi (- 53) \<le> of_int (2 ^ 53)" by simp
    then have m_le: "m \<le> 2 ^ 53" unfolding m_def q by (rule round_half_even_le)
    from assms(2) have "of_int 0 \<le> l * 3 / 2 powi (- 53)" by simp
    then have m_ge: "0 \<le> m" unfolding m_def q by (rule round_half_even_ge)
    have m_ne: "m \<noteq> 2 ^ 53 - 1" unfolding m_def by (rule not_tie_up)
    have ym: "y = of_int m * 2 powi (- 53)" by (simp only: y m_def)
    show ?thesis
    proof (cases "m = 2 ^ 53")
      case True
      then have "y = 1" by (simp add: ym)
      moreover have "round_double (of_int 2) = of_int 2" by (rule round_double_of_int) simp
      ultimately show ?thesis by (simp add: y_def [symmetric] js_plus_def)
    next
      case False
      with m_le m_ne have "m \<le> 2 ^ 53 - 2" by simp
      then have "(of_int m :: rat) \<le> of_int (2 ^ 53 - 2)" by (simp only: of_int_le_iff)
      then have y1: "y \<le> 1 - 1 / 2 ^ 52" by (simp add: ym)
      from m_ge have y0: "0 \<le> y" by (simp add: ym)
      have "\<lfloor>js_plus y 1\<rfloor> = 1"
      proof (rule floor_js_plus_1)
        show "of_int 1 \<le> y + 1" using y0 by simp
        show "y + 1 \<le> of_int (2 ^ 53 - 1) * 2 powi (- 52)" using y1 by simp
      qed simp_all
      moreover have "\<lfloor>y\<rfloor> = 0" using y0 y1 by (intro floor_unique) simp_all
      ultimately show ?thesis by (simp add: y_def)
    qed
  next
    case False
    then have "of_int 1 * 2 powi 0 \<le> l * 3" by simp
    then have "of_int 1 * 2 powi 0 \<le> y" unfolding y_def js_times_def by (rule round_double_ge) simp_all
    then have y0: "1 \<le> y" by simp
    have "l * 3 \<le> of_int 3 * 2 powi (- 1)" using assms(3) by simp
    then have "y \<le> of_int 3 * 2 powi (- 1)" unfolding y_def js_times_def by (rule round_double_le) simp_all
    then have y1: "y \<le> 3 / 2" by simp
    have "\<lfloor>js_plus y 1\<rfloor> = 2"
    proof (rule floor_js_plus_1)
      show "of_int 2 \<le> y + 1" using y0 by simp
      show "y + 1 \<le> of_int 5 * 2 powi (- 1)" using y1 by simp
    qed simp_all
    moreover have "\<lfloor>y\<rfloor> = 1" using y0 y1 by (intro floor_unique) simp_all
    ultimately show ?thesis by (simp add: y_def)
  qed
qed

lemma numCoins_upper:
  assumes d: "round_double l = l" and "1 / 2 \<le> l" and "l < 1"
  shows "\<lfloor>js_plus (js_times l 3) 1\<rfloor> = \<lfloor>js_times l 3\<rfloor> + 1 \<and>
         0 \<le> \<lfloor>js_times l 3\<rfloor> \<and> \<lfloor>js_times l 3\<rfloor> < 3"
proof -
  define y where "y = js_times l 3"
  from assms(2,3) have "2 powi (- 1) \<le> \<bar>l\<bar>" "\<bar>l\<bar> < 2 powi (- 1 + 1)" by simp_all
  from double_on_grid [OF d this] obtain n where n: "l = of_int n * 2 powi (- 53)" by auto
  with assms(3) have "(of_int n :: rat) < of_int (2 ^ 53)" by simp
  then have n_less: "n < 2 ^ 53" by (simp only: of_int_less_iff)
  show ?thesis
  proof (cases "l * 3 < 2")
    case True
    with assms(2) have "2 powi 0 \<le> \<bar>l * 3\<bar>" "\<bar>l * 3\<bar> < 2 powi (0 + 1)" by simp_all
    from round_double_normal [OF this]
    have "y = of_int (round_half_even (l * 3 / 2 powi (- 52))) * 2 powi (- 52)"
      by (simp add: y_def js_times_def)
    moreover have q: "l * 3 / 2 powi (- 52) = of_int (3 * n) / 2" by (simp add: n)
    ultimately have y: "y = of_int (round_half_even (of_int (3 * n) / 2)) * 2 powi (- 52)"
      by (simp only:)
    define m where "m = round_half_even (of_int (3 * n) / 2)"
    from True have "l * 3 / 2 powi (- 52) \<le> of_int (2 ^ 53)" by simp
    then have m_le: "m \<le> 2 ^ 53" unfolding m_def q by (rule round_half_even_le)
    from assms(2) have "of_int (3 * 2 ^ 51) \<le> l * 3 / 2 powi (- 52)" by simp
    then have m_ge: "3 * 2 ^ 51 \<le> m" unfolding m_def q by (rule round_half_even_ge)
    have m_ne: "m \<noteq> 2 ^ 53 - 1" unfolding m_def by (rule not_tie_up)
    have ym: "y = of_int m * 2 powi (- 52)" by (simp only: y m_def)
    show ?thesis
    proof (cases "m = 2 ^ 53")
      case True
      then have "y = 2" by (simp add: ym)
      moreover have "round_double (of_int 3) = of_int 3" by (rule round_double_of_int) simp
      ultimately show ?thesis by (simp add: y_def [symmetric] js_plus_def)
    next
      case False
      with m_le m_ne have "m \<le> 2 ^ 53 - 2" by simp
      then have "(of_int m :: rat) \<le> of_int (2 ^ 53 - 2)" by (simp only: of_int_le_iff)
      then have y1: "y \<le> 2 - 1 / 2 ^ 51" by (simp add: ym)
      from m_ge have "(of_int (3 * 2 ^ 51) :: rat) \<le> of_int m" by (simp only: of_int_le_iff)
      then have y0: "3 / 2 \<le> y" by (simp add: ym)
      have "\<lfloor>js_plus y 1\<rfloor> = 2"
      proof (rule floor_js_plus_1)
        show "of_int 2 \<le> y + 1" using y0 by simp
        show "y + 1 \<le> of_int (3 * 2 ^ 51 - 1) * 2 powi (- 51)" using y1 by simp
      qed simp_all
      moreover have "\<lfloor>y\<rfloor> = 1" using y0 y1 by (intro floor_unique) simp_all
      ultimately show ?thesis by (simp add: y_def)
    qed
  next
    case False
    with assms(3) have "2 powi 1 \<le> \<bar>l * 3\<bar>" "\<bar>l * 3\<bar> < 2 powi (1 + 1)" by simp_all
    from round_double_normal [OF this]
    have "y = of_int (round_half_even (l * 3 / 2 powi (- 51))) * 2 powi (- 51)"
      by (simp add: y_def js_times_def)
    moreover have q: "l * 3 / 2 powi (- 51) = of_int (3 * n) / 4" by (simp add: n)
    ultimately have y: "y = of_int (round_half_even (of_int (3 * n) / 4)) * 2 powi (- 51)"
      by (simp only:)
    define m where "m = round_half_even (of_int (3 * n) / 4)"
    from n_less have "n \<le> 2 ^ 53 - 1" by simp
    then have "(of_int n :: rat) \<le> of_int (2 ^ 53 - 1)" by (simp only: of_int_le_iff)
    then have "(of_int (3 * n) / 4 :: rat) < of_int (3 * 2 ^ 51 - 1) + 1 / 2" by simp
    then have m_le: "m \<le> 3 * 2 ^ 51 - 1" unfolding m_def by (rule round_half_even_less)
    from False have "of_int (2 ^ 52) \<le> l * 3 / 2 powi (- 51)" by simp
    then have m_ge: "2 ^ 52 \<le> m" unfolding m_def q by (rule round_half_even_ge)
    have ym: "y = of_int m * 2 powi (- 51)" by (simp only: y m_def)
    from m_le have "(of_int m :: rat) \<le> of_int (3 * 2 ^ 51 - 1)" by (simp only: of_int_le_iff)
    then have y1: "y \<le> 3 - 1 / 2 ^ 51" by (simp add: ym)
    from m_ge have "(of_int (2 ^ 52) :: rat) \<le> of_int m" by (simp only: of_int_le_iff)
    then have y0: "2 \<le> y" by (simp add: ym)
    have "\<lfloor>js_plus y 1\<rfloor> = 3"
    proof (rule floor_js_plus_1)
      show "of_int 3 \<le> y + 1" using y0 by simp
      show "y + 1 \<le> of_int (2 ^ 53 - 1) * 2 powi (- 51)" using y1 by simp
    qed simp_all
    moreover have "\<lfloor>y\<rfloor> = 2" using y0 y1 by (intro floor_unique) simp_all
    ultimately show ?thesis by (simp add: y_def)
  qed
qed

lemma numCoins_double:
  assumes "round_double l = l" and "0 \<le> l" and "l < 1"
  shows "\<lfloor>js_plus (js_times l 3) 1\<rfloor> = \<lfloor>js_times l 3\<rfloor> + 1"
    and "0 \<le> \<lfloor>js_times l 3\<rfloor>" and "\<lfloor>js_times l 3\<rfloor> < 3"
proof -
  consider "l < 1 / 4" | "1 / 4 \<le> l" "l < 1 / 2" | "1 / 2 \<le> l" by linarith
  then have "\<lfloor>js_plus (js_times l 3) 1\<rfloor> = \<lfloor>js_times l 3\<rfloor> + 1 \<and>
      0 \<le> \<lfloor>js_times l 3\<rfloor> \<and> \<lfloor>js_times l 3\<rfloor> < 3"
  proof cases
    case 1
    with numCoins_small [OF assms(2)] show ?thesis by simp
  next
    case 2
    with numCoins_third [OF assms(1)] show ?thesis by simp
  next
    case 3
    with numCoins_upper [OF assms(1) _ assms(3)] show ?thesis by simp
  qed
  then show "\<lfloor>js_plus (js_times l 3) 1\<rfloor> = \<lfloor>js_times l 3\<rfloor> + 1"
    and "0 \<le> \<lfloor>js_times l 3\<rfloor>" and "\<lfloor>js_times l 3\<rfloor> < 3" by simp_all
qed

lemma js_times_3_exact:
  assumes "l = of_int n / 2 ^ m" and "m \<le> 51" and "0 \<le> l" and "l < 1"
  shows "js_times l 3 = l * 3"
proof -
  from assms(1) have "(of_int n :: rat) = l * 2 ^ m" by simp
  moreover from assms(3) have "0 \<le> l * 2 ^ m" by simp
  moreover from assms(4) have "l * 2 ^ m < 1 * 2 ^ m" by (intro mult_strict_right_mono) simp_all
  ultimately have "(of_int 0 :: rat) \<le> of_int n" "(of_int n :: rat) < of_int (2 ^ m)" by simp_all
  then have "0 \<le> n" "n < 2 ^ m" by (simp_all only: of_int_le_iff of_int_less_iff)
  moreover from assms(2) have "(2 :: int) ^ m \<le> 2 ^ 51" by (intro power_increasing) simp_all
  ultimately have a: "\<bar>3 * n\<bar> \<le> 2 ^ 53" by simp
  have b: "- 1074 \<le> - int m" using assms(2) by simp
  have "l * 3 = of_int (3 * n) * 2 powi (- int m)"
    by (simp add: assms(1) power_int_minus divide_simps)
  with round_double_representable [OF a b] show ?thesis by (simp only: js_times_def)
qed

lemma luck_third: "round_double (6004799503160661 / 2 ^ 54) = 6004799503160661 / 2 ^ 54"
  using round_double_representable [of 6004799503160661 "- 54"] by simp

lemma luck_third_times: "js_times (6004799503160661 / 2 ^ 54) 3 = 1"
proof -
  define x :: rat where "x = 6004799503160661 / 2 ^ 54 * 3"
  have "2 powi (- 1) \<le> \<bar>x\<bar>" "\<bar>x\<bar> < 2 powi (- 1 + 1)" by (simp_all add: x_def)
  from round_double_normal [OF this]
  have "round_double x = of_int (round_half_even (x / 2 powi (- 53))) * 2 powi (- 53)" by simp
  moreover have "x / 2 powi (- 53) = of_int (2 ^ 53 - 1) + 1 / 2" by (simp add: x_def)
  ultimately have "round_double x = of_int (2 ^ 53) * 2 powi (- 53)"
    by (simp only: round_half_even_tie) simp
  then show ?thesis by (simp add: js_times_def x_def)
qed

text \<open>
  The product itself may round up: at the double just below \<open>1/3\<close> the exact product is
  below 1 and the double product is 1, and \<open>generateCoins\<close> makes two coins.
\<close>

lemma numCoins_of_below_third:
  "numCoins_of (\<lambda>seed. 6004799503160661 / 2 ^ 54) cell = 2 \<and>
   \<lfloor>(6004799503160661 / 2 ^ 54 :: rat) * 3\<rfloor> + 1 = 1"
proof -
  have "round_double (of_int 2) = of_int 2" by (rule round_double_of_int) simp
  then have "numCoins_of (\<lambda>seed. 6004799503160661 / 2 ^ 54) cell = 2"
    unfolding numCoins_of_def luck_third_times js_plus_def by simp
  moreover have "\<lfloor>(6004799503160661 / 2 ^ 54 :: rat) * 3\<rfloor> = 0"
    by (intro floor_unique) simp_all
  ultimately show ?thesis by simp
qed

subsection \<open>The coins\<close>

lemma coinHeap_loop_old:
  "r < nextRef st \<Longrightarrow> coinHeap (generateCoins_loop cell cache k n st) r = coinHeap st r"
  by (simp add: generateCoins_loop_eq)

lemma coinHeap_loop_new:
  "s < nat (n - k) \<Longrightarrow>
   coinHeap (generateCoins_loop cell cache k n st) (nextRef st + s) =
     \<lparr>coin_cell = cell, coin_serial = k + int s\<rparr>"
  by (simp add: generateCoins_loop_eq)

lemma cacheHeap_loop:
  "cacheHeap (generateCoins_loop cell cache k n st) cache =
     (cacheHeap st cache)
       \<lparr>coin_refs := coin_refs (cacheHeap st cache) @ [nextRef st..<nextRef st + nat (n - k)]\<rparr>"
  by (simp add: generateCoins_loop_eq)

lemma readCache_generateCoins_loop:
  assumes "list_all (\<lambda>r. r < nextRef st) (coin_refs (cacheHeap st cache))"
  shows "readCache (generateCoins_loop cell cache 0 n st) cache =
           \<lparr>cache_cell = cell_of (cacheHeap st cache),
            cache_coins = cache_coins (readCache st cache) @
              map (\<lambda>s. \<lparr>coin_cell = cell, coin_serial = int s\<rparr>) [0..<nat n]\<rparr>"
proof -
  let ?st' = "generateCoins_loop cell cache 0 n st"
  have old: "map (coinHeap ?st') (coin_refs (cacheHeap st cache)) =
             map (coinHeap st) (coin_refs (cacheHeap st cache))"
    using assms by (auto simp: list_all_iff coinHeap_loop_old)
  have "map (coinHeap ?st') [nextRef st..<nextRef st + nat n] =
        map (\<lambda>s. coinHeap ?st' (nextRef st + s)) [0..<nat n]"
    by (rule map_upt_shift)
  also have "\<dots> = map (\<lambda>s. \<lparr>coin_cell = cell, coin_serial = int s\<rparr>) [0..<nat n]"
    by (rule map_cong) (simp_all add: coinHeap_loop_new)
  finally have new: "map (coinHeap ?st') [nextRef st..<nextRef st + nat n] =
        map (\<lambda>s. \<lparr>coin_cell = cell, coin_serial = int s\<rparr>) [0..<nat n]" .
  show ?thesis
    by (simp add: readCache_def cacheHeap_loop old new)
qed

text \<open>
  Claim C9. When \<open>luck\<close> answers the seed \<^verbatim>\<open>[cell.i, cell.j, "numCoins"].toString()\<close> with
  a double \<open>l\<close> in \<open>[0, 1)\<close>, the number of coins \<open>generateCoins\<close> adds is
  \<open>k = \<lfloor>l * 3\<rfloor> + 1\<close>, the product being the product of doubles; \<open>k\<close> is 1, 2 or 3; and
  the coins added to the cache are exactly those with the serials \<open>0, ..., k - 1\<close>, in this
  order, each recording the cell as its home. (The coins the cache had stay in front;
  \<open>spawnCache\<close> passes a cache without coins.) When \<open>l\<close> is a multiple of \<open>2\<^sup>-\<^sup>5\<^sup>1\<close>, as a 32-bit
  hash divided by \<open>2\<^sup>3\<^sup>2\<close> is, the product is exact and \<open>k\<close> is \<open>\<lfloor>l * 3\<rfloor> + 1\<close> in exact
  arithmetic too.
\<close>

theorem generateCoins_coins:
  assumes "round_double (luck (array_toString [show_int (cell_i cell), show_int (cell_j cell), ''numCoins''])) =
           luck (array_toString [show_int (cell_i cell), show_int (cell_j cell), ''numCoins''])"
    and "0 \<le> luck (array_toString [show_int (cell_i cell), show_int (cell_j cell), ''numCoins''])"
    and "luck (array_toString [show_int (cell_i cell), show_int (cell_j cell), ''numCoins'']) < 1"
    and "list_all (\<lambda>r. r < nextRef st) (coin_refs (cacheHeap st cache))"
  shows "(let l = luck (array_toString [show_int (cell_i cell), show_int (cell_j cell), ''numCoins'']);
              k = \<lfloor>js_times l 3\<rfloor> + 1
          in k \<in> {1, 2, 3} \<and>
             readCache (generateCoins luck cell cache st) cache =
               \<lparr>cache_cell = cell_of (cacheHeap st cache),
                cache_coins = cache_coins (readCache st cache) @
                  map (\<lambda>s. \<lparr>coin_cell = cell, coin_serial = int s\<rparr>) [0..<nat k]\<rparr> \<and>
             ((\<exists>n m. m \<le> 51 \<and> l = of_int n / 2 ^ m) \<longrightarrow> k = \<lfloor>l * 3\<rfloor> + 1))"
proof -
  let ?l = "luck (array_toString [show_int (cell_i cell), show_int (cell_j cell), ''numCoins''])"
  from numCoins_double [OF assms(1,2,3)]
  have n: "\<lfloor>js_plus (js_times ?l 3) 1\<rfloor> = \<lfloor>js_times ?l 3\<rfloor> + 1"
    and range: "0 \<le> \<lfloor>js_times ?l 3\<rfloor>" "\<lfloor>js_times ?l 3\<rfloor> < 3" .
  have "\<lfloor>js_times ?l 3\<rfloor> = 0 \<or> \<lfloor>js_times ?l 3\<rfloor> = 1 \<or> \<lfloor>js_times ?l 3\<rfloor> = 2"
    using range by linarith
  then have "\<lfloor>js_times ?l 3\<rfloor> + 1 \<in> {1, 2, 3}" by auto
  moreover have "readCache (generateCoins luck cell cache st) cache =
      \<lparr>cache_cell = cell_of (cacheHeap st cache),
       cache_coins = cache_coins (readCache st cache) @
         map (\<lambda>s. \<lparr>coin_cell = cell, coin_serial = int s\<rparr>) [0..<nat (\<lfloor>js_times ?l 3\<rfloor> + 1)]\<rparr>"
    unfolding generateCoins_def Let_def n
    by (rule readCache_generateCoins_loop [OF assms(4)])
  moreover have "\<lfloor>js_times ?l 3\<rfloor> + 1 = \<lfloor>?l * 3\<rfloor> + 1"
    if "\<exists>n m. m \<le> 51 \<and> ?l = of_int n / 2 ^ m"
  proof -
    from that obtain n m where "m \<le> 51" "?l = of_int n / 2 ^ m" by blast
    from js_times_3_exact [OF this(2,1) assms(2,3)] show ?thesis by simp
  qed
  ultimately show ?thesis by (simp only: Let_def) blast
qed

theorem generateCoins_coins_witness:
  "round_double (1 / 2) = 1 / 2 \<and> (0::rat) \<le> 1 / 2 \<and> (1 / 2 :: rat) < 1 \<and>
   list_all (\<lambda>r. r < nextRef (initial_globals Map.empty))
     (coin_refs (cacheHeap (initial_globals Map.empty) 0)) \<and>
   (\<exists>n m. m \<le> (51 :: nat) \<and> (1 / 2 :: rat) = of_int n / 2 ^ m) \<and>
   \<lfloor>js_times (1 / 2) 3\<rfloor> + 1 = 2 \<and>
   readCache (generateCoins (\<lambda>seed. 1 / 2) \<lparr>cell_i = 369894, cell_j = - 1220628\<rparr> 0
      (initial_globals Map.empty)) 0 =
     \<lparr>cache_cell = \<lparr>cell_i = 0, cell_j = 0\<rparr>,
      cache_coins =
        [\<lparr>coin_cell = \<lparr>cell_i = 369894, cell_j = - 1220628\<rparr>, coin_serial = 0\<rparr>,
         \<lparr>coin_cell = \<lparr>cell_i = 369894, cell_j = - 1220628\<rparr>, coin_serial = 1\<rparr>]\<rparr> \<and>
   \<lfloor>(1 / 2 :: rat) * 3\<rfloor> + 1 = 2"
proof -
  have d: "round_double (1 / 2) = 1 / 2"
    using round_double_representable [of 1 "- 1"] by simp
  have h: "list_all (\<lambda>r. r < nextRef (initial_globals Map.empty))
     (coin_refs (cacheHeap (initial_globals Map.empty) 0))"
    by (simp add: initial_globals_def)
  have e: "\<exists>n m. m \<le> (51 :: nat) \<and> (1 / 2 :: rat) = of_int n / 2 ^ m"
    by (intro exI [of _ 1] exI [of _ "1 :: nat"]) simp
  have "js_times (1 / 2) 3 = 1 / 2 * 3"
    by (rule js_times_3_exact [of _ 1 1]) simp_all
  then have t: "js_times (1 / 2) 3 = 3 / 2" by simp
  have k: "\<lfloor>(3 / 2 :: rat)\<rfloor> + 1 = 2" "nat (\<lfloor>(3 / 2 :: rat)\<rfloor> + 1) = 2"
    by (simp_all add: floor_rat_numeral)
  have upt: "[0..<2] = [0, Suc 0]" by (simp add: upt_rec)
  from generateCoins_coins [of "\<lambda>seed. 1 / 2" "\<lparr>cell_i = 369894, cell_j = - 1220628\<rparr>"
      "initial_globals Map.empty" 0, OF d _ _ h]
  have "readCache (generateCoins (\<lambda>seed. 1 / 2) \<lparr>cell_i = 369894, cell_j = - 1220628\<rparr> 0
      (initial_globals Map.empty)) 0 =
     \<lparr>cache_cell = \<lparr>cell_i = 0, cell_j = 0\<rparr>,
      cache_coins =
        [\<lparr>coin_cell = \<lparr>cell_i = 369894, cell_j = - 1220628\<rparr>, coin_serial = 0\<rparr>,
         \<lparr>coin_cell = \<lparr>cell_i = 369894, cell_j = - 1220628\<rparr>, coin_serial = 1\<rparr>]\<rparr>"
    by (simp add: Let_def t k upt) (simp add: readCache_def initial_globals_def)
  moreover have "\<lfloor>js_times (1 / 2) 3\<rfloor> + 1 = 2" "\<lfloor>(1 / 2 :: rat) * 3\<rfloor> + 1 = 2"
    by (simp_all add: t k)
  ultimately show ?thesis using d h e by (intro conjI) simp_all
qed

section \<open>Collecting\<close>

lemma indexOf_absent: "x \<notin> set xs \<Longrightarrow> indexOf xs x = - 1"
  by (induction xs) (auto simp: Let_def)

lemma indexOf_present: "x \<in> set xs \<Longrightarrow> 0 \<le> indexOf xs x"
  by (induction xs) (auto simp: Let_def)

lemma splice1_indexOf: "x \<in> set xs \<Longrightarrow> splice1 (indexOf xs x) xs = remove1 x xs"
proof (induction xs)
  case Nil
  then show ?case by simp
next
  case (Cons y ys)
  show ?case
  proof (cases "y = x")
    case True
    then show ?thesis by (simp add: splice1_def)
  next
    case False
    with Cons.prems have mem: "x \<in> set ys" by simp
    from indexOf_present [OF mem] have nonneg: "0 \<le> indexOf ys x" .
    then have "indexOf ys x \<noteq> - 1" by simp
    moreover have "nat (indexOf ys x + 1) = Suc (nat (indexOf ys x))" using nonneg by simp
    ultimately show ?thesis
      using False Cons.IH [OF mem] by (simp add: splice1_def Let_def)
  qed
qed

lemma coin_refs_collect:
  "coin_refs (cacheHeap (collect coin cache st) cache) = remove1 coin (coin_refs (cacheHeap st cache))"
proof (cases "coin \<in> set (coin_refs (cacheHeap st cache))")
  case True
  from indexOf_present [OF True] have "- 1 < indexOf (coin_refs (cacheHeap st cache)) coin" by simp
  then show ?thesis
    by (simp add: collect_def Let_def displayInventory_def saveInventory_def saveCaches_def
        splice1_indexOf [OF True])
next
  case False
  then show ?thesis
    by (simp add: collect_def Let_def displayInventory_def saveInventory_def saveCaches_def
        indexOf_absent remove1_idem)
qed

lemma coinHeap_collect: "coinHeap (collect coin cache st) = coinHeap st"
  by (simp add: collect_def Let_def displayInventory_def saveInventory_def saveCaches_def)

lemma cell_of_collect: "cell_of (cacheHeap (collect coin cache st) cache) = cell_of (cacheHeap st cache)"
  by (simp add: collect_def Let_def displayInventory_def saveInventory_def saveCaches_def)

lemma playerInventory_collect: "playerInventory (collect coin cache st) = playerInventory st @ [coin]"
  by (simp add: collect_def Let_def displayInventory_def saveInventory_def saveCaches_def)

lemma readCache_collect:
  "readCache (collect coin cache st) cache =
     \<lparr>cache_cell = cell_of (cacheHeap st cache),
      cache_coins = map (coinHeap st) (remove1 coin (coin_refs (cacheHeap st cache)))\<rparr>"
  by (simp add: readCache_def coin_refs_collect coinHeap_collect cell_of_collect)

lemma caches_collect:
  "caches (collect coin cache st) =
     AList.update (cellToString (cell_of (cacheHeap st cache)))
       (toMomento (readCache (collect coin cache st) cache)) (caches st)"
  by (simp add: collect_def Let_def displayInventory_def saveInventory_def saveCaches_def
      readCache_def)

text \<open>
  Claim C4. When no coin of the cache's sequence has the fields (cell and serial) of the
  coin passed to \<open>collect\<close>, the call leaves the cache's coin sequence as it was, and so the
  value of the cache. No statement of \<open>collect\<close> can throw: it is a total function on
  states, without an error result.
\<close>

theorem collect_absent_coin:
  assumes "list_all (\<lambda>r. coinHeap st r \<noteq> coinHeap st coin) (coin_refs (cacheHeap st cache))"
  shows "coin_refs (cacheHeap (collect coin cache st) cache) = coin_refs (cacheHeap st cache) \<and>
         readCache (collect coin cache st) cache = readCache st cache"
proof -
  from assms have "coin \<notin> set (coin_refs (cacheHeap st cache))"
    by (auto simp: list_all_iff)
  then have "remove1 coin (coin_refs (cacheHeap st cache)) = coin_refs (cacheHeap st cache)"
    by (rule remove1_idem)
  then show ?thesis
    by (simp add: coin_refs_collect readCache_collect) (simp add: readCache_def)
qed


theorem collect_absent_coin_witness:
  "list_all (\<lambda>r. coinHeap example_game r \<noteq> coinHeap example_game 5)
     (coin_refs (cacheHeap example_game 0)) \<and>
   coin_refs (cacheHeap (collect 5 0 example_game) 0) = [1, 2] \<and>
   readCache (collect 5 0 example_game) 0 = readCache example_game 0"
proof -
  have h: "list_all (\<lambda>r. coinHeap example_game r \<noteq> coinHeap example_game 5)
     (coin_refs (cacheHeap example_game 0))"
    by (simp add: example_game_def)
  from collect_absent_coin [OF h] show ?thesis
    using h by (simp add: example_game_def)
qed

text \<open>
  Claim C8, as the code has it. \<open>collect\<close> finds the coin with \<^verbatim>\<open>indexOf\<close>, which
  compares object references: it removes the first occurrence of the very object it is
  given, and nothing when that object is not in the sequence, whatever the fields of the
  coins there. The cache keeps the values of the remaining coin objects.
\<close>

theorem collect_removes_by_identity:
  "coin_refs (cacheHeap (collect coin cache st) cache) =
     remove1 coin (coin_refs (cacheHeap st cache)) \<and>
   readCache (collect coin cache st) cache =
     \<lparr>cache_cell = cell_of (cacheHeap st cache),
      cache_coins = map (coinHeap st) (remove1 coin (coin_refs (cacheHeap st cache)))\<rparr>"
  by (simp add: coin_refs_collect readCache_collect)

theorem collect_removes_by_identity_witness:
  "coin_refs (cacheHeap (collect 1 0 example_game) 0) = [2] \<and>
   readCache (collect 1 0 example_game) 0 =
     \<lparr>cache_cell = cell00, cache_coins = [\<lparr>coin_cell = cell00, coin_serial = 1\<rparr>]\<rparr>"
  using collect_removes_by_identity [of 1 0 example_game]
  by (simp add: example_game_def)

text \<open>
  The claim as stated fails: coin object 3 has the cell and the serial of coin object 1,
  which is in the cache, and \<open>collect\<close> removes nothing from the cache.
\<close>

theorem collect_value_match_counterexample:
  "coinHeap example_game 3 = coinHeap example_game 1 \<and>
   coin_refs (cacheHeap example_game 0) = [1, 2] \<and>
   coin_refs (cacheHeap (collect 3 0 example_game) 0) = [1, 2] \<and>
   playerInventory (collect 3 0 example_game) = [3]"
  by (simp add: coin_refs_collect playerInventory_collect) (simp add: example_game_def)

section \<open>Counting coins\<close>

lemma coinCount_toMomento [simp]: "coinCount (toMomento c) = length (cache_coins c)"
  by (simp add: coinCount_def fromMomento_inverse)

lemma sum_list_update:
  "distinct (map fst al) \<Longrightarrow> map_of al k = Some old \<Longrightarrow>
   sum_list (map (\<lambda>(k, m). f m) (AList.update k v al)) + f old =
   sum_list (map (\<lambda>(k, m). f m) al) + (f v :: nat)"
  by (induction al) (auto simp: rev_image_eqI)

lemma deposit_loop_eq:
  "deposit_loop cache st =
     st\<lparr>playerInventory := [],
        cacheHeap := (cacheHeap st)
          (cache := (cacheHeap st cache)
             \<lparr>coin_refs := coin_refs (cacheHeap st cache) @ rev (playerInventory st)\<rparr>)\<rparr>"
proof (induction "length (playerInventory st)" arbitrary: st)
  case 0
  then show ?case
    by (subst deposit_loop.simps) (auto intro!: game.equality)
next
  case (Suc n)
  then have ne: "playerInventory st \<noteq> []" by auto
  then obtain xs x where inv: "playerInventory st = xs @ [x]"
    by (cases "playerInventory st" rule: rev_cases) auto
  let ?st1 = "pushCoin cache (last (playerInventory st))
                (st\<lparr>playerInventory := butlast (playerInventory st)\<rparr>)"
  have step: "deposit_loop cache st = deposit_loop cache ?st1"
    using ne by (subst deposit_loop.simps) (simp add: Let_def)
  have n: "n = length (playerInventory ?st1)"
    using Suc.hyps(2) inv by (simp add: pushCoin_def)
  show ?case
    unfolding step Suc.hyps(1) [OF n]
    by (rule game.equality) (auto simp: pushCoin_def inv)
qed

lemma deposit_fields:
  "playerInventory (deposit cache st) = []"
  "coin_refs (cacheHeap (deposit cache st) cache) =
     coin_refs (cacheHeap st cache) @ rev (playerInventory st)"
  "cell_of (cacheHeap (deposit cache st) cache) = cell_of (cacheHeap st cache)"
  "coinHeap (deposit cache st) = coinHeap st"
  "caches (deposit cache st) =
     AList.update (cellToString (cell_of (cacheHeap st cache)))
       (toMomento \<lparr>cache_cell = cell_of (cacheHeap st cache),
                   cache_coins = map (coinHeap st)
                     (coin_refs (cacheHeap st cache) @ rev (playerInventory st))\<rparr>) (caches st)"
  by (simp_all add: deposit_def Let_def deposit_loop_eq displayInventory_def saveInventory_def
      saveCaches_def readCache_def)

text \<open>
  The registry entry of a cache object is in step with the object when it is the memento
  of the object's present value. Every spawn, collect and deposit leaves the object it
  worked on in step.
\<close>

lemma collect_present_conserves:
  assumes "distinct (map fst (caches st))"
    and "map_of (caches st) (cellToString (cell_of (cacheHeap st cache))) =
           Some (toMomento (readCache st cache))"
    and "coin \<in> set (coin_refs (cacheHeap st cache))"
  shows "total_coins (collect coin cache st) = total_coins st"
proof -
  let ?refs = "coin_refs (cacheHeap st cache)"
  have len: "Suc (length (remove1 coin ?refs)) = length ?refs"
    using assms(3) by (simp add: length_remove1) (cases ?refs, auto)
  from sum_list_update [OF assms(1,2), of coinCount "toMomento (readCache (collect coin cache st) cache)"]
  have "sum_list (map (\<lambda>(k, m). coinCount m) (caches (collect coin cache st))) + length ?refs =
        sum_list (map (\<lambda>(k, m). coinCount m) (caches st)) + length (remove1 coin ?refs)"
    by (simp add: caches_collect readCache_collect) (simp add: readCache_def)
  with len show ?thesis
    by (simp add: total_coins_def playerInventory_collect)
qed

lemma deposit_conserves:
  assumes "distinct (map fst (caches st))"
    and "map_of (caches st) (cellToString (cell_of (cacheHeap st cache))) =
           Some (toMomento (readCache st cache))"
  shows "total_coins (deposit cache st) = total_coins st"
proof -
  from sum_list_update [OF assms, of coinCount
      "toMomento \<lparr>cache_cell = cell_of (cacheHeap st cache),
                   cache_coins = map (coinHeap st)
                     (coin_refs (cacheHeap st cache) @ rev (playerInventory st))\<rparr>"]
  show ?thesis
    by (simp add: total_coins_def deposit_fields) (simp add: readCache_def)
qed


lemma cellToString_cell00: "cellToString cell00 = ''0,0''"
  by (simp add: cellToString_def cell00_def show_int_def show_nat.simps digit_char_def)


section \<open>Cell keys\<close>

lemma show_nat_no_comma: "CHR '','' \<notin> set (show_nat n)"
  using show_nat_digits [of n] by (auto simp: list_all_iff is_digit_def)

lemma show_int_no_comma: "CHR '','' \<notin> set (show_int n)"
  by (simp add: show_int_def show_nat_no_comma)

lemma show_int_inj: "show_int n = show_int m \<Longrightarrow> n = m"
proof -
  assume eq: "show_int n = show_int m"
  have "parse_number (show_int n @ []) = Some (of_int n, [])"
    by (rule parse_number_show_int) simp
  moreover have "parse_number (show_int m @ []) = Some (of_int m, [])"
    by (rule parse_number_show_int) simp
  ultimately have "(of_int n :: rat) = of_int m" using eq by simp
  then show "n = m" by simp
qed

lemma split_at_separator:
  assumes "a @ c # b = a' @ c # b'" and "c \<notin> set a" and "c \<notin> set a'"
  shows "a = a' \<and> b = b'"
proof -
  have tw: "takeWhile (\<lambda>x. x \<noteq> c) (xs @ c # ys) = xs" if "c \<notin> set xs" for xs ys
    using that by (induction xs) auto
  have "takeWhile (\<lambda>x. x \<noteq> c) (a @ c # b) = a" using assms(2) by (rule tw)
  moreover have "takeWhile (\<lambda>x. x \<noteq> c) (a' @ c # b') = a'" using assms(3) by (rule tw)
  ultimately have "a = a'" using assms(1) by simp
  with assms(1) show ?thesis by simp
qed

lemma cellToString_inj: "cellToString a = cellToString b \<Longrightarrow> a = b"
proof -
  assume "cellToString a = cellToString b"
  then have "show_int (cell_i a) @ CHR '','' # show_int (cell_j a) =
             show_int (cell_i b) @ CHR '','' # show_int (cell_j b)"
    by (simp add: cellToString_def)
  from split_at_separator [OF this show_int_no_comma show_int_no_comma]
  have "cell_i a = cell_i b" "cell_j a = cell_j b" by (auto dest: show_int_inj)
  then show "a = b" by simp
qed

lemma cellToString_eq_iff [simp]: "cellToString a = cellToString b \<longleftrightarrow> a = b"
  by (auto dest: cellToString_inj)

lemma toMomento_nonempty [simp]: "toMomento c \<noteq> []"
  by (simp add: toMomento_def cache_json_def)

lemma memento_ok_toMomento [simp]: "memento_ok (toMomento c)"
  by (simp add: memento_ok_def fromMomento_inverse)

section \<open>Spawning one cache\<close>

lemma addRectangle_fields [simp]:
  "nextRef (addRectangle cell cache st) = Suc (nextRef st)"
  "cacheMarkers (addRectangle cell cache st) =
     AList.update (cellToString cell) (nextRef st) (cacheMarkers st)"
  "mapLayers (addRectangle cell cache st) = mapLayers st @ [nextRef st]"
  "popupCache (addRectangle cell cache st) = (popupCache st)(nextRef st := cache)"
  "coinHeap (addRectangle cell cache st) = coinHeap st"
  "cacheHeap (addRectangle cell cache st) = cacheHeap st"
  "caches (addRectangle cell cache st) = caches st"
  "playerLocation (addRectangle cell cache st) = playerLocation st"
  "playerInventory (addRectangle cell cache st) = playerInventory st"
  "playerMovementHistory (addRectangle cell cache st) = playerMovementHistory st"
  "localStorage (addRectangle cell cache st) =
     (localStorage st)(''caches'' \<mapsto>
        stringify (JArr (map (\<lambda>(k, m). JArr [JStr k, JStr m]) (caches st))))"
  "readCache (addRectangle cell cache st) r = readCache st r"
  by (simp_all add: addRectangle_def Let_def saveCaches_def readCache_def)

lemma generateCoins_fields [simp]:
  "nextRef (generateCoins luck cell cache st) = nextRef st + nat (numCoins_of luck cell)"
  "caches (generateCoins luck cell cache st) = caches st"
  "cacheMarkers (generateCoins luck cell cache st) = cacheMarkers st"
  "mapLayers (generateCoins luck cell cache st) = mapLayers st"
  "popupCache (generateCoins luck cell cache st) = popupCache st"
  "localStorage (generateCoins luck cell cache st) = localStorage st"
  "playerLocation (generateCoins luck cell cache st) = playerLocation st"
  "playerInventory (generateCoins luck cell cache st) = playerInventory st"
  "playerMovementHistory (generateCoins luck cell cache st) = playerMovementHistory st"
  "coin_refs (cacheHeap (generateCoins luck cell cache st) cache) =
     coin_refs (cacheHeap st cache) @ [nextRef st..<nextRef st + nat (numCoins_of luck cell)]"
  by (simp_all add: generateCoins_def Let_def generateCoins_loop_eq numCoins_of_def)

lemma generateCoins_frame:
  "r < nextRef st \<Longrightarrow> coinHeap (generateCoins luck cell cache st) r = coinHeap st r"
  "r \<noteq> cache \<Longrightarrow> cacheHeap (generateCoins luck cell cache st) r = cacheHeap st r"
  by (simp_all add: generateCoins_def Let_def generateCoins_loop_eq)

lemma readCache_created:
  assumes "coin_refs (cacheHeap st cache) = []" and "cell_of (cacheHeap st cache) = cell"
  shows "readCache (generateCoins luck cell cache st) cache = createdCache luck cell"
proof -
  have "list_all (\<lambda>r. r < nextRef st) (coin_refs (cacheHeap st cache))" using assms(1) by simp
  from readCache_generateCoins_loop [OF this, of cell "numCoins_of luck cell"] assms
  show ?thesis
    by (simp add: generateCoins_def Let_def numCoins_of_def createdCache_def readCache_def)
qed

lemma readCache_caches_update [simp]: "readCache (st\<lparr>caches := x\<rparr>) r = readCache st r"
  by (simp add: readCache_def)

lemma generateCache_result:
  "\<exists>st'. generateCache luck cell st = (nextRef st, st') \<and>
     nextRef st < nextRef st' \<and>
     caches st' = AList.update (cellToString cell) (toMomento (createdCache luck cell)) (caches st) \<and>
     readCache st' (nextRef st) = createdCache luck cell \<and>
     list_all (\<lambda>r. nextRef st < r \<and> r < nextRef st') (coin_refs (cacheHeap st' (nextRef st))) \<and>
     (\<forall>r. r < nextRef st \<longrightarrow> coinHeap st' r = coinHeap st r \<and> cacheHeap st' r = cacheHeap st r) \<and>
     cacheMarkers st' = cacheMarkers st \<and> mapLayers st' = mapLayers st \<and>
     popupCache st' = popupCache st \<and> localStorage st' = localStorage st \<and>
     playerLocation st' = playerLocation st \<and> playerInventory st' = playerInventory st \<and>
     playerMovementHistory st' = playerMovementHistory st"
proof -
  let ?st1 = "st\<lparr>cacheHeap := (cacheHeap st)(nextRef st := \<lparr>cell_of = cell, coin_refs = []\<rparr>),
                 nextRef := Suc (nextRef st)\<rparr>"
  let ?st2 = "generateCoins luck cell (nextRef st) ?st1"
  have v: "readCache ?st2 (nextRef st) = createdCache luck cell"
    by (rule readCache_created) simp_all
  have eq: "generateCache luck cell st =
      (nextRef st, ?st2\<lparr>caches := AList.update (cellToString cell)
          (toMomento (createdCache luck cell)) (caches ?st2)\<rparr>)"
    by (simp add: generateCache_def newCacheObject_def Let_def v)
  have v': "readCache (?st2\<lparr>caches := AList.update (cellToString cell)
          (toMomento (createdCache luck cell)) (caches ?st2)\<rparr>) (nextRef st) = createdCache luck cell"
    using v by simp
  show ?thesis
    unfolding eq
    by (rule exI, intro conjI, rule refl) (auto simp: v generateCoins_frame list_all_iff)
qed

lemma newCache_result:
  "\<exists>st'. newCache c st = (nextRef st + length (cache_coins c), st') \<and>
     nextRef st' = Suc (nextRef st + length (cache_coins c)) \<and>
     caches st' = caches st \<and>
     readCache st' (nextRef st + length (cache_coins c)) = c \<and>
     list_all (\<lambda>r. r < nextRef st + length (cache_coins c))
       (coin_refs (cacheHeap st' (nextRef st + length (cache_coins c)))) \<and>
     (\<forall>r. r < nextRef st \<longrightarrow> coinHeap st' r = coinHeap st r \<and> cacheHeap st' r = cacheHeap st r) \<and>
     cacheMarkers st' = cacheMarkers st \<and> mapLayers st' = mapLayers st \<and>
     popupCache st' = popupCache st \<and> localStorage st' = localStorage st \<and>
     playerLocation st' = playerLocation st \<and> playerInventory st' = playerInventory st \<and>
     playerMovementHistory st' = playerMovementHistory st"
proof -
  let ?n = "nextRef st" and ?l = "length (cache_coins c)"
  have coins: "map (\<lambda>r. if ?n \<le> r \<and> r < ?n + ?l then cache_coins c ! (r - ?n) else coinHeap st r)
      [?n..<?n + ?l] = cache_coins c"
    by (rule nth_equalityI) simp_all
  show ?thesis
    by (simp add: newCache_def newCoins_eq newCacheObject_def readCache_def coins list_all_iff)
qed

lemma spawnCache_fresh:
  assumes "map_of (caches st) (cellToString cell) = None \<or>
           map_of (caches st) (cellToString cell) = Some []"
  shows "\<exists>st'. spawnCache luck cell st = Inr st' \<and>
           caches st' = AList.update (cellToString cell) (toMomento (createdCache luck cell)) (caches st) \<and>
           spawned cell (createdCache luck cell) st st'"
proof -
  from generateCache_result [of luck cell st] obtain st1 where
    gen: "generateCache luck cell st = (nextRef st, st1)" and
    facts: "nextRef st < nextRef st1"
      "caches st1 = AList.update (cellToString cell) (toMomento (createdCache luck cell)) (caches st)"
      "readCache st1 (nextRef st) = createdCache luck cell"
      "list_all (\<lambda>r. nextRef st < r \<and> r < nextRef st1) (coin_refs (cacheHeap st1 (nextRef st)))"
      "\<forall>r. r < nextRef st \<longrightarrow> coinHeap st1 r = coinHeap st r \<and> cacheHeap st1 r = cacheHeap st r"
      "cacheMarkers st1 = cacheMarkers st" "mapLayers st1 = mapLayers st"
      "popupCache st1 = popupCache st" "localStorage st1 = localStorage st"
      "playerLocation st1 = playerLocation st" "playerInventory st1 = playerInventory st"
      "playerMovementHistory st1 = playerMovementHistory st"
    by blast
  from assms gen have run: "spawnCache luck cell st = Inr (addRectangle cell (nextRef st) st1)"
    by (auto simp: spawnCache_def fetchCache_def)
  have "spawned cell (createdCache luck cell) st (addRectangle cell (nextRef st) st1)"
    unfolding spawned_def
    apply (rule exI [of _ "nextRef st"], rule exI [of _ "nextRef st1"])
    using facts by (auto simp: list_all_iff)
  with run facts(2) show ?thesis by simp
qed

lemma spawnCache_found:
  assumes "map_of (caches st) (cellToString cell) = Some m" and "m \<noteq> []"
    and "fromMomento m = Inr c"
  shows "\<exists>st'. spawnCache luck cell st = Inr st' \<and> caches st' = caches st \<and> spawned cell c st st'"
proof -
  let ?cache = "nextRef st + length (cache_coins c)"
  from newCache_result [of c st] obtain st1 where
    new: "newCache c st = (?cache, st1)" and
    facts: "nextRef st1 = Suc ?cache" "caches st1 = caches st" "readCache st1 ?cache = c"
      "list_all (\<lambda>r. r < ?cache) (coin_refs (cacheHeap st1 ?cache))"
      "\<forall>r. r < nextRef st \<longrightarrow> coinHeap st1 r = coinHeap st r \<and> cacheHeap st1 r = cacheHeap st r"
      "cacheMarkers st1 = cacheMarkers st" "mapLayers st1 = mapLayers st"
      "popupCache st1 = popupCache st" "localStorage st1 = localStorage st"
      "playerLocation st1 = playerLocation st" "playerInventory st1 = playerInventory st"
      "playerMovementHistory st1 = playerMovementHistory st"
    by blast
  from assms new have run: "spawnCache luck cell st = Inr (addRectangle cell ?cache st1)"
    by (simp add: spawnCache_def fetchCache_def)
  have "spawned cell c st (addRectangle cell ?cache st1)"
    unfolding spawned_def
    apply (rule exI [of _ ?cache], rule exI [of _ "Suc ?cache"])
    using facts by (auto simp: list_all_iff)
  with run facts(2) show ?thesis by simp
qed

lemma spawnCache_error:
  assumes "map_of (caches st) (cellToString cell) = Some m" and "m \<noteq> []"
    and "fromMomento m = Inl e"
  shows "spawnCache luck cell st = Inl e"
  using assms by (simp add: spawnCache_def fetchCache_def)

lemma spawnCache_cases [case_names fresh found error]:
  obtains
    (fresh) st' where
      "map_of (caches st) (cellToString cell) = None \<or>
       map_of (caches st) (cellToString cell) = Some []"
      "spawnCache luck cell st = Inr st'"
      "caches st' = AList.update (cellToString cell) (toMomento (createdCache luck cell)) (caches st)"
      "spawned cell (createdCache luck cell) st st'"
  | (found) m c st' where
      "map_of (caches st) (cellToString cell) = Some m" "m \<noteq> []" "fromMomento m = Inr c"
      "spawnCache luck cell st = Inr st'" "caches st' = caches st" "spawned cell c st st'"
  | (error) m e where
      "map_of (caches st) (cellToString cell) = Some m" "m \<noteq> []" "fromMomento m = Inl e"
      "spawnCache luck cell st = Inl e"
proof (cases "map_of (caches st) (cellToString cell)")
  case None
  with spawnCache_fresh [of st cell luck] fresh show ?thesis by blast
next
  case (Some m)
  show ?thesis
  proof (cases "m = []")
    case True
    with Some spawnCache_fresh [of st cell luck] fresh show ?thesis by blast
  next
    case False
    show ?thesis
    proof (cases "fromMomento m")
      case (Inl e)
      with Some False spawnCache_error [of st cell m e luck] error show ?thesis by blast
    next
      case (Inr c)
      with Some False spawnCache_found [of st cell m c luck] found show ?thesis by blast
    qed
  qed
qed

section \<open>Spawning twice\<close>

lemma filter_key_update:
  "distinct (map fst al) \<Longrightarrow> length (filter (\<lambda>(k', r). k' = k) (AList.update k v al)) = 1"
proof (induction al)
  case Nil
  then show ?case by simp
next
  case (Cons p al)
  obtain a b where p: "p = (a, b)" by (cases p)
  show ?case
  proof (cases "a = k")
    case True
    with Cons.prems have "filter (\<lambda>(k', r). k' = k) al = []"
      by (force simp: p filter_empty_conv)
    with True show ?thesis by (simp add: p)
  next
    case False
    with Cons show ?thesis by (simp add: p)
  qed
qed

lemma spawnCache_again:
  assumes "spawnCache luck cell st = Inr st1"
  shows "\<exists>v st2. spawned cell v st st1 \<and> spawnCache luck cell st1 = Inr st2 \<and>
           caches st2 = caches st1 \<and> spawned cell v st1 st2"
proof (cases rule: spawnCache_cases [of st cell luck])
  case (fresh st')
  with assms have st1: "st' = st1" by simp
  from fresh(3) have "map_of (caches st1) (cellToString cell) = Some (toMomento (createdCache luck cell))"
    by (simp add: st1 update_conv')
  from spawnCache_found [OF this toMomento_nonempty fromMomento_inverse, of luck] fresh(4)
  show ?thesis by (auto simp: st1)
next
  case (found m c st')
  with assms have st1: "st' = st1" by simp
  from found have "map_of (caches st1) (cellToString cell) = Some m" by (simp add: st1)
  from spawnCache_found [OF this found(2,3), of luck] found(6)
  show ?thesis by (auto simp: st1)
next
  case (error m e)
  with assms show ?thesis by simp
qed

text \<open>
  Claim C5, as the code has it. \<open>spawnCache\<close> itself does not look at the marker registry
  (its two callers do, and call it only for a cell without a marker). A second
  \<open>spawnCache\<close> for the same cell succeeds and leaves the cache registry as it is; it puts
  a new rectangle on the map and stores it under the cell's key, so that the marker
  registry still has exactly one entry for the cell, now the new rectangle; the first
  rectangle stays on the map; the cache behind the new popup has the same value as the one
  behind the first.
\<close>

theorem spawnCache_twice:
  assumes "distinct (map fst (cacheMarkers st))"
    and "spawnCache luck cell st = Inr st1"
  shows "\<exists>st2 r1 r2.
           spawnCache luck cell st1 = Inr st2 \<and>
           caches st2 = caches st1 \<and>
           length (filter (\<lambda>(k, r). k = cellToString cell) (cacheMarkers st2)) = 1 \<and>
           map_of (cacheMarkers st1) (cellToString cell) = Some r1 \<and>
           map_of (cacheMarkers st2) (cellToString cell) = Some r2 \<and>
           r1 \<noteq> r2 \<and> r1 \<in> set (mapLayers st2) \<and> r2 \<in> set (mapLayers st2) \<and>
           readCache st2 (popupCache st2 r2) = readCache st1 (popupCache st1 r1)"
proof -
  from spawnCache_again [OF assms(2)] obtain v st2 where
    first: "spawned cell v st st1" and run: "spawnCache luck cell st1 = Inr st2" and
    same: "caches st2 = caches st1" and second: "spawned cell v st1 st2"
    by blast
  from first obtain c1 r1 where
    f: "c1 < r1" "nextRef st1 = Suc r1"
       "cacheMarkers st1 = AList.update (cellToString cell) r1 (cacheMarkers st)"
       "mapLayers st1 = mapLayers st @ [r1]" "popupCache st1 = (popupCache st)(r1 := c1)"
       "readCache st1 c1 = v"
    unfolding spawned_def by blast
  from second obtain c2 r2 where
    s: "nextRef st1 \<le> c2" "c2 < r2"
       "cacheMarkers st2 = AList.update (cellToString cell) r2 (cacheMarkers st1)"
       "mapLayers st2 = mapLayers st1 @ [r2]" "popupCache st2 = (popupCache st1)(r2 := c2)"
       "readCache st2 c2 = v"
    unfolding spawned_def by blast
  have "distinct (map fst (cacheMarkers st1))"
    using assms(1) by (simp add: f(3) distinct_update)
  then have one: "length (filter (\<lambda>(k, r). k = cellToString cell) (cacheMarkers st2)) = 1"
    unfolding s(3) by (rule filter_key_update)
  have m1: "map_of (cacheMarkers st1) (cellToString cell) = Some r1"
    by (simp add: f(3) update_conv')
  have m2: "map_of (cacheMarkers st2) (cellToString cell) = Some r2"
    by (simp add: s(3) update_conv')
  from f(2) s(1,2) have neq: "r1 \<noteq> r2" by simp
  have layers: "r1 \<in> set (mapLayers st2)" "r2 \<in> set (mapLayers st2)"
    by (simp_all add: s(4) f(4))
  have "readCache st2 (popupCache st2 r2) = readCache st1 (popupCache st1 r1)"
    by (simp add: s(5,6) f(5,6))
  with run same one m1 m2 neq layers show ?thesis by blast
qed

theorem spawnCache_twice_witness:
  "distinct (map fst (cacheMarkers example_game)) \<and>
   (\<exists>st1 st2 r1 r2.
      spawnCache (\<lambda>seed. 0) cell00 example_game = Inr st1 \<and>
      spawnCache (\<lambda>seed. 0) cell00 st1 = Inr st2 \<and>
      caches st2 = caches st1 \<and>
      length (filter (\<lambda>(k, r). k = cellToString cell00) (cacheMarkers st2)) = 1 \<and>
      map_of (cacheMarkers st1) (cellToString cell00) = Some r1 \<and>
      map_of (cacheMarkers st2) (cellToString cell00) = Some r2 \<and>
      r1 \<noteq> r2 \<and> r1 \<in> set (mapLayers st2) \<and> r2 \<in> set (mapLayers st2) \<and>
      readCache st2 (popupCache st2 r2) = readCache st1 (popupCache st1 r1))"
proof -
  have d: "distinct (map fst (cacheMarkers example_game))"
    by (simp add: example_game_def)
  have "map_of (caches example_game) (cellToString cell00) =
      Some (toMomento \<lparr>cache_cell = cell00,
           cache_coins = [\<lparr>coin_cell = cell00, coin_serial = 0\<rparr>,
                          \<lparr>coin_cell = cell00, coin_serial = 1\<rparr>]\<rparr>)"
    by (simp add: example_game_def cellToString_cell00)
  from spawnCache_found [OF this toMomento_nonempty fromMomento_inverse, of "\<lambda>seed. 0"]
  obtain st1 where run: "spawnCache (\<lambda>seed. 0) cell00 example_game = Inr st1" by blast
  from spawnCache_twice [OF d run] d run show ?thesis by blast
qed

text \<open>
  The claim as stated fails. From the state of a fresh page, two calls of \<open>spawnCache\<close>
  for the cell \<open>(0, 0)\<close> both succeed; the second is no no-op and does not retain the
  marker: the key's marker was rectangle 2 and is rectangle 5 afterwards, and both
  rectangles are on the map.
\<close>

theorem spawnCache_twice_counterexample:
  "(case spawnCache (\<lambda>seed. 0) cell00 (initial_globals Map.empty) of
      Inl e \<Rightarrow> False
    | Inr st1 \<Rightarrow>
        (case spawnCache (\<lambda>seed. 0) cell00 st1 of
           Inl e \<Rightarrow> False
         | Inr st2 \<Rightarrow>
             cacheMarkers st1 = [(''0,0'', 2)] \<and> mapLayers st1 = [2] \<and>
             cacheMarkers st2 = [(''0,0'', 5)] \<and> mapLayers st2 = [2, 5]))"
proof -
  have loop: "generateCoins_loop cell cache k 1 st =
      (if k < 1 then generateCoins_loop cell cache (k + 1) 1
                       (pushCoin cache (nextRef st)
                          (st\<lparr>coinHeap := (coinHeap st)(nextRef st := \<lparr>coin_cell = cell, coin_serial = k\<rparr>),
                              nextRef := Suc (nextRef st)\<rparr>))
       else st)" for cell cache k st
    by (subst generateCoins_loop.simps) (simp add: newCoin_def)
  show ?thesis
    by (simp add: spawnCache_def fetchCache_def generateCache_def newCacheObject_def
        generateCoins_def js_times_def js_plus_def loop pushCoin_def addRectangle_def
        saveCaches_def initial_globals_def cellToString_cell00 readCache_def fromMomento_inverse
        newCache_def newCoin_def Let_def)
qed

section \<open>Spawning the new cells\<close>

lemma registry_ok_lookup: "registry_ok al \<Longrightarrow> map_of al k = Some m \<Longrightarrow> memento_ok m"
  by (auto simp: registry_ok_def list_all_iff dest: map_of_SomeD)

lemma registry_ok_update:
  "registry_ok al \<Longrightarrow> memento_ok m \<Longrightarrow> registry_ok (AList.update k m al)"
  by (induction al) (auto simp: registry_ok_def)

lemma heap_frame_refl [simp]: "heap_frame st st"
  by (simp add: heap_frame_def)

lemma heap_frame_trans: "heap_frame a b \<Longrightarrow> heap_frame b c \<Longrightarrow> heap_frame a c"
  by (auto simp: heap_frame_def)

lemma player_frame_refl [simp]: "player_frame st st"
  by (simp add: player_frame_def)

lemma player_frame_trans: "player_frame a b \<Longrightarrow> player_frame b c \<Longrightarrow> player_frame a c"
  by (auto simp: player_frame_def)

lemma kept_refl [simp]: "kept key st st"
  by (simp add: kept_def)

lemma kept_trans: "kept key a b \<Longrightarrow> kept key b c \<Longrightarrow> kept key a c"
  by (auto simp: kept_def intro: heap_frame_trans player_frame_trans)

lemma readCache_frame:
  assumes "heap_frame st st'" and "cache < nextRef st"
    and "list_all (\<lambda>r. r < nextRef st) (coin_refs (cacheHeap st cache))"
  shows "readCache st' cache = readCache st cache"
proof -
  from assms(1,2) have obj: "cacheHeap st' cache = cacheHeap st cache"
    by (simp add: heap_frame_def)
  have "map (coinHeap st') (coin_refs (cacheHeap st cache)) =
        map (coinHeap st) (coin_refs (cacheHeap st cache))"
    using assms(1,3) by (auto simp: heap_frame_def list_all_iff)
  with obj show ?thesis by (simp add: readCache_def)
qed

lemma spawned_kept:
  assumes "spawned cell' v st st'"
    and "caches st' = caches st \<or> caches st' = AList.update (cellToString cell') m (caches st)"
    and "cellToString cell' \<noteq> key"
  shows "kept key st st'"
proof -
  from assms(1) obtain cache rect where
    f: "nextRef st \<le> cache" "cache < rect" "nextRef st' = Suc rect"
       "cacheMarkers st' = AList.update (cellToString cell') rect (cacheMarkers st)"
       "popupCache st' = (popupCache st)(rect := cache)"
       "\<forall>r. r < nextRef st \<longrightarrow> coinHeap st' r = coinHeap st r \<and> cacheHeap st' r = cacheHeap st r"
       "playerLocation st' = playerLocation st" "playerInventory st' = playerInventory st"
       "playerMovementHistory st' = playerMovementHistory st"
       "\<forall>k. k \<noteq> ''caches'' \<longrightarrow> localStorage st' k = localStorage st k"
    unfolding spawned_def by blast
  from assms(2,3) have "map_of (caches st') key = map_of (caches st) key"
    by (auto simp: update_conv')
  moreover from assms(3) have "map_of (cacheMarkers st') key = map_of (cacheMarkers st) key"
    by (simp add: f(4) update_conv')
  moreover have "heap_frame st st'"
    using f(1,2,3,5,6) by (auto simp: heap_frame_def)
  ultimately show ?thesis using f(7-10) by (simp add: kept_def player_frame_def)
qed

lemma spawnCache_ok:
  assumes "registry_ok (caches st)"
  shows "\<exists>st' v. spawnCache luck cell st = Inr st' \<and> spawned cell v st st' \<and>
           registry_ok (caches st') \<and>
           (caches st' = caches st \<or>
            caches st' = AList.update (cellToString cell) (toMomento (createdCache luck cell)) (caches st))"
proof (cases rule: spawnCache_cases [of st cell luck])
  case (fresh st')
  with assms show ?thesis by (auto intro: registry_ok_update)
next
  case (found m c st')
  with assms show ?thesis by auto
next
  case (error m e)
  from registry_ok_lookup [OF assms error(1)] error(2,3) show ?thesis
    by (simp add: memento_ok_def)
qed

lemma spawnCache_other:
  assumes "registry_ok (caches st)" and "cell' \<noteq> cell"
  shows "\<exists>st'. spawnCache luck cell' st = Inr st' \<and> registry_ok (caches st') \<and>
           kept (cellToString cell) st st'"
proof -
  from spawnCache_ok [OF assms(1), of luck cell'] obtain st' v where
    run: "spawnCache luck cell' st = Inr st'" and sp: "spawned cell' v st st'" and
    ok: "registry_ok (caches st')" and
    reg: "caches st' = caches st \<or>
          caches st' = AList.update (cellToString cell') (toMomento (createdCache luck cell')) (caches st)"
    by blast
  from assms(2) have "cellToString cell' \<noteq> cellToString cell" by simp
  from spawned_kept [OF sp reg this] run ok show ?thesis by blast
qed

lemma spawnCaches_others:
  assumes "registry_ok (caches st)" and "cell \<notin> set cells"
  shows "\<exists>st'. spawnCaches luck cells st = Inr st' \<and> registry_ok (caches st') \<and>
           kept (cellToString cell) st st'"
  using assms
proof (induction cells arbitrary: st)
  case Nil
  then show ?case by simp
next
  case (Cons c cells)
  from Cons.prems have "c \<noteq> cell" "cell \<notin> set cells" by auto
  from spawnCache_other [OF Cons.prems(1) this(1), of luck] obtain st1 where
    one: "spawnCache luck c st = Inr st1" "registry_ok (caches st1)"
         "kept (cellToString cell) st st1" by blast
  from Cons.IH [OF one(2) \<open>cell \<notin> set cells\<close>] obtain st' where
    rest: "spawnCaches luck cells st1 = Inr st'" "registry_ok (caches st')"
          "kept (cellToString cell) st1 st'" by blast
  from one rest show ?case by (auto intro: kept_trans)
qed

lemma spawnCaches_append:
  "spawnCaches luck (xs @ ys) st =
     (case spawnCaches luck xs st of Inl e \<Rightarrow> Inl e | Inr st' \<Rightarrow> spawnCaches luck ys st')"
  by (induction xs arbitrary: st) (auto split: sum.splits)

section \<open>Despawning\<close>

lemma despawn_changes:
  "despawn ms visible st =
     st\<lparr>mapLayers := mapLayers (despawn ms visible st),
        cacheMarkers := cacheMarkers (despawn ms visible st)\<rparr>"
proof (induction ms arbitrary: st)
  case Nil
  then show ?case by simp
next
  case (Cons p ms)
  obtain k r where p: "p = (k, r)" by (cases p)
  show ?case
    unfolding p despawn.simps
    by (subst Cons.IH) (rule game.equality, simp_all)
qed

lemma despawn_fields [simp]:
  "caches (despawn ms visible st) = caches st"
  "coinHeap (despawn ms visible st) = coinHeap st"
  "cacheHeap (despawn ms visible st) = cacheHeap st"
  "popupCache (despawn ms visible st) = popupCache st"
  "nextRef (despawn ms visible st) = nextRef st"
  "localStorage (despawn ms visible st) = localStorage st"
  "playerLocation (despawn ms visible st) = playerLocation st"
  "playerInventory (despawn ms visible st) = playerInventory st"
  "playerMovementHistory (despawn ms visible st) = playerMovementHistory st"
  by (subst despawn_changes, simp)+

lemma map_of_despawn:
  "map_of (cacheMarkers (despawn ms visible st)) key =
     (if key \<in> set visible \<or> key \<notin> fst ` set ms then map_of (cacheMarkers st) key else None)"
proof (induction ms arbitrary: st)
  case Nil
  then show ?case by simp
next
  case (Cons p ms)
  obtain k r where p: "p = (k, r)" by (cases p)
  show ?case
    by (auto simp: p Cons.IH delete_conv)
qed

lemma kept_despawn:
  assumes "key \<in> set visible \<or> map_of (cacheMarkers st) key = None"
  shows "kept key st (despawn (cacheMarkers st) visible st)"
proof -
  have "map_of (cacheMarkers (despawn (cacheMarkers st) visible st)) key = map_of (cacheMarkers st) key"
    using assms by (auto simp: map_of_despawn map_of_eq_None_iff)
  then show ?thesis by (simp add: kept_def heap_frame_def player_frame_def)
qed

lemma spawned_player_frame: "spawned cell v st st' \<Longrightarrow> player_frame st st'"
  by (auto simp: spawned_def player_frame_def)

lemma spawnCache_player_frame: "spawnCache luck cell st = Inr st' \<Longrightarrow> player_frame st st'"
  by (cases rule: spawnCache_cases [of st cell luck]) (auto intro: spawned_player_frame)

lemma spawnCaches_player_frame: "spawnCaches luck cells st = Inr st' \<Longrightarrow> player_frame st st'"
proof (induction cells arbitrary: st)
  case Nil
  then show ?case by simp
next
  case (Cons c cells)
  then obtain st1 where one: "spawnCache luck c st = Inr st1"
    and rest: "spawnCaches luck cells st1 = Inr st'"
    by (auto split: sum.splits)
  from spawnCache_player_frame [OF one] Cons.IH [OF rest] show ?case
    by (rule player_frame_trans)
qed

section \<open>Settling the caches\<close>

lemma newCells_of_subset: "set (newCells_of luck visible st) \<subseteq> set visible"
  by (auto simp: newCells_of_def)

lemma key_in_visible [simp]: "cellToString cell \<in> cellToString ` set cells \<longleftrightarrow> cell \<in> set cells"
  by auto

lemma updateCaches_out_of_sight:
  assumes "registry_ok (caches st)"
    and "getVisibleCells (playerLocation st) = Some visible" and "cell \<notin> set visible"
  shows "\<exists>st'. updateCaches luck st = Inr st' \<and> registry_ok (caches st') \<and>
           map_of (cacheMarkers st') (cellToString cell) = None \<and>
           map_of (caches st') (cellToString cell) = map_of (caches st) (cellToString cell) \<and>
           heap_frame st st' \<and> player_frame st st'"
proof -
  let ?st1 = "despawn (cacheMarkers st) (map cellToString visible) st"
  let ?new = "newCells_of luck visible ?st1"
  have gone: "map_of (cacheMarkers ?st1) (cellToString cell) = None"
    using assms(3) by (auto simp: map_of_despawn map_of_eq_None_iff)
  have "cell \<notin> set ?new" using assms(3) newCells_of_subset by blast
  moreover have "registry_ok (caches ?st1)" using assms(1) by simp
  ultimately obtain st' where
    run: "spawnCaches luck ?new ?st1 = Inr st'" and ok: "registry_ok (caches st')" and
    k: "kept (cellToString cell) ?st1 st'"
    using spawnCaches_others by blast
  from k gone have "map_of (cacheMarkers st') (cellToString cell) = None"
    and "map_of (caches st') (cellToString cell) = map_of (caches st) (cellToString cell)"
    and "heap_frame st st'" and "player_frame st st'"
    by (simp_all add: kept_def heap_frame_def player_frame_def)
  with run ok show ?thesis by (simp add: updateCaches_def Let_def assms(2))
qed

lemma updateCaches_respawn:
  assumes "registry_ok (caches st)"
    and visible: "getVisibleCells (playerLocation st) = Some visible" "cell \<in> set visible"
    and "map_of (cacheMarkers st) (cellToString cell) = None"
    and "luck (cellToString cell) < CACHE_SPAWN_PROBABILITY"
    and "map_of (caches st) (cellToString cell) = Some m" and "m \<noteq> []"
    and "fromMomento m = Inr c"
  shows "\<exists>st' rect. updateCaches luck st = Inr st' \<and> registry_ok (caches st') \<and>
           map_of (cacheMarkers st') (cellToString cell) = Some rect \<and>
           readCache st' (popupCache st' rect) = c \<and>
           map_of (caches st') (cellToString cell) = Some m \<and> player_frame st st'"
proof -
  let ?key = "cellToString cell"
  let ?visible = visible
  let ?st1 = "despawn (cacheMarkers st) (map cellToString ?visible) st"
  define P where "P = (\<lambda>cell. map_of (cacheMarkers ?st1) (cellToString cell) = None \<and>
              luck (array_toString [show_int (cell_i cell), show_int (cell_j cell)])
                < CACHE_SPAWN_PROBABILITY)"
  have k1: "kept ?key st ?st1" using assms(4) by (simp add: kept_despawn)
  then have P: "P cell"
    using assms(4,5) by (simp add: P_def kept_def cellToString_def)
  from visible(2) obtain xs ys where split: "?visible = xs @ cell # ys"
    by (auto simp: in_set_conv_decomp)
  with getVisibleCells_distinct [OF visible(1)]
  have notin: "cell \<notin> set xs" "cell \<notin> set ys" by auto
  have "newCells_of luck ?visible ?st1 = filter P ?visible"
    by (simp add: newCells_of_def P_def)
  then have new: "newCells_of luck ?visible ?st1 = filter P xs @ cell # filter P ys"
    using P by (simp add: split)
  have ok1: "registry_ok (caches ?st1)" using assms(1) by simp
  from notin(1) have "cell \<notin> set (filter P xs)" by simp
  from spawnCaches_others [OF ok1 this, of luck] obtain sta where
    a: "spawnCaches luck (filter P xs) ?st1 = Inr sta" "registry_ok (caches sta)"
       "kept ?key ?st1 sta" by blast
  from kept_trans [OF k1 a(3)] have ka: "kept ?key st sta" .
  with assms(6) have entry: "map_of (caches sta) ?key = Some m" by (simp add: kept_def)
  from spawnCache_found [OF entry assms(7,8), of luck] obtain stb where
    b: "spawnCache luck cell sta = Inr stb" "caches stb = caches sta" "spawned cell c sta stb"
    by blast
  from b(3) obtain cache rect where
    f: "cache < rect" "nextRef stb = Suc rect"
       "cacheMarkers stb = AList.update ?key rect (cacheMarkers sta)"
       "popupCache stb = (popupCache sta)(rect := cache)" "readCache stb cache = c"
       "list_all (\<lambda>r. r < rect) (coin_refs (cacheHeap stb cache))"
    unfolding spawned_def by blast
  have okb: "registry_ok (caches stb)" using a(2) b(2) by simp
  from notin(2) have "cell \<notin> set (filter P ys)" by simp
  from spawnCaches_others [OF okb this, of luck] obtain st' where
    c: "spawnCaches luck (filter P ys) stb = Inr st'" "registry_ok (caches st')"
       "kept ?key stb st'" by blast
  have run: "updateCaches luck st = Inr st'"
    by (simp add: updateCaches_def Let_def visible(1) new spawnCaches_append a(1) b(1) c(1))
  from c(3) have frame: "heap_frame stb st'" by (simp add: kept_def)
  have marker: "map_of (cacheMarkers st') ?key = Some rect"
    using c(3) by (simp add: kept_def f(3) update_conv')
  have "popupCache st' rect = cache"
    using frame f(2,4) by (simp add: heap_frame_def)
  moreover have "readCache st' cache = readCache stb cache"
  proof (rule readCache_frame [OF frame])
    show "cache < nextRef stb" using f(1,2) by simp
    show "list_all (\<lambda>r. r < nextRef stb) (coin_refs (cacheHeap stb cache))"
      using f(2,6) by (auto simp: list_all_iff)
  qed
  ultimately have val: "readCache st' (popupCache st' rect) = c" by (simp add: f(5))
  have reg: "map_of (caches st') ?key = Some m"
    using c(3) entry b(2) by (simp add: kept_def)
  have "player_frame st st'"
    using ka spawnCache_player_frame [OF b(1)] c(3)
    by (auto simp: kept_def intro: player_frame_trans)
  with run c(2) marker val reg show ?thesis by blast
qed

section \<open>Moving away and back\<close>

lemma savePlayerLocation_fields [simp]:
  "caches (savePlayerLocation st) = caches st"
  "cacheMarkers (savePlayerLocation st) = cacheMarkers st"
  "coinHeap (savePlayerLocation st) = coinHeap st"
  "cacheHeap (savePlayerLocation st) = cacheHeap st"
  "popupCache (savePlayerLocation st) = popupCache st"
  "nextRef (savePlayerLocation st) = nextRef st"
  "mapLayers (savePlayerLocation st) = mapLayers st"
  "playerLocation (savePlayerLocation st) = playerLocation st"
  "playerInventory (savePlayerLocation st) = playerInventory st"
  "playerMovementHistory (savePlayerLocation st) = playerMovementHistory st"
  by (simp_all add: savePlayerLocation_def)

lemma movePlayer_unfold:
  "movePlayer luck newPos st =
     updateCaches luck
       (savePlayerLocation
          (st\<lparr>playerLocation := \<lparr>lat = fst newPos, lng = snd newPos\<rparr>,
              playerMovementHistory :=
                playerMovementHistory st @ [\<lparr>lat = fst newPos, lng = snd newPos\<rparr>]\<rparr>))"
  by (simp add: movePlayer_def Let_def)

lemma collect_fields [simp]:
  "cacheMarkers (collect coin cache st) = cacheMarkers st"
  "popupCache (collect coin cache st) = popupCache st"
  "nextRef (collect coin cache st) = nextRef st"
  by (simp_all add: collect_def Let_def displayInventory_def saveInventory_def saveCaches_def)

lemma respawn_after_collect:
  assumes ok: "registry_ok (caches st)"
    and home: "cell_of (cacheHeap st cache) = cell"
    and far: "getVisibleCells \<lparr>lat = fst away, lng = snd away\<rparr> = Some va" "cell \<notin> set va"
    and near: "getVisibleCells \<lparr>lat = fst back, lng = snd back\<rparr> = Some vn" "cell \<in> set vn"
    and lucky: "luck (cellToString cell) < CACHE_SPAWN_PROBABILITY"
  shows "\<exists>st2 st3 rect.
           movePlayer luck away (collect coin cache st) = Inr st2 \<and>
           map_of (cacheMarkers st2) (cellToString cell) = None \<and>
           movePlayer luck back st2 = Inr st3 \<and>
           map_of (cacheMarkers st3) (cellToString cell) = Some rect \<and>
           readCache st3 (popupCache st3 rect) =
             \<lparr>cache_cell = cell,
              cache_coins = map (coinHeap st) (remove1 coin (coin_refs (cacheHeap st cache)))\<rparr> \<and>
           map_of (caches st3) (cellToString cell) =
             Some (toMomento \<lparr>cache_cell = cell,
               cache_coins = map (coinHeap st) (remove1 coin (coin_refs (cacheHeap st cache)))\<rparr>)"
proof -
  let ?key = "cellToString cell"
  let ?v = "\<lparr>cache_cell = cell,
             cache_coins = map (coinHeap st) (remove1 coin (coin_refs (cacheHeap st cache)))\<rparr>"
  let ?st1 = "collect coin cache st"
  have v: "readCache ?st1 cache = ?v" by (simp add: readCache_collect home)
  have reg1: "caches ?st1 = AList.update ?key (toMomento ?v) (caches st)"
    by (simp add: caches_collect v home)
  have ok1: "registry_ok (caches ?st1)"
    unfolding reg1 using ok by (rule registry_ok_update) simp
  have entry1: "map_of (caches ?st1) ?key = Some (toMomento ?v)"
    by (simp add: reg1 update_conv')
  let ?m1 = "savePlayerLocation
      (?st1\<lparr>playerLocation := \<lparr>lat = fst away, lng = snd away\<rparr>,
            playerMovementHistory :=
              playerMovementHistory ?st1 @ [\<lparr>lat = fst away, lng = snd away\<rparr>]\<rparr>)"
  have "registry_ok (caches ?m1)" using ok1 by simp
  moreover have "getVisibleCells (playerLocation ?m1) = Some va" using far(1) by simp
  ultimately obtain st2 where
    a: "updateCaches luck ?m1 = Inr st2" "registry_ok (caches st2)"
       "map_of (cacheMarkers st2) ?key = None"
       "map_of (caches st2) ?key = map_of (caches ?m1) ?key"
    using updateCaches_out_of_sight [of ?m1 va cell luck] far(2) by blast
  have run2: "movePlayer luck away ?st1 = Inr st2"
    by (simp only: movePlayer_unfold a(1))
  from a(4) entry1 have entry2: "map_of (caches st2) ?key = Some (toMomento ?v)" by simp
  let ?m2 = "savePlayerLocation
      (st2\<lparr>playerLocation := \<lparr>lat = fst back, lng = snd back\<rparr>,
          playerMovementHistory :=
            playerMovementHistory st2 @ [\<lparr>lat = fst back, lng = snd back\<rparr>]\<rparr>)"
  have "registry_ok (caches ?m2)" using a(2) by simp
  moreover have "getVisibleCells (playerLocation ?m2) = Some vn" using near(1) by simp
  moreover have "map_of (cacheMarkers ?m2) ?key = None" using a(3) by simp
  moreover have "map_of (caches ?m2) ?key = Some (toMomento ?v)" using entry2 by simp
  ultimately obtain st3 rect where
    b: "updateCaches luck ?m2 = Inr st3" "map_of (cacheMarkers st3) ?key = Some rect"
       "readCache st3 (popupCache st3 rect) = ?v" "map_of (caches st3) ?key = Some (toMomento ?v)"
    using updateCaches_respawn [of ?m2 vn cell luck "toMomento ?v" ?v, OF _ _ near(2) _ lucky _
        toMomento_nonempty fromMomento_inverse]
    by blast
  have run3: "movePlayer luck back st2 = Inr st3"
    by (simp only: movePlayer_unfold b(1))
  from run2 a(3) run3 b(2,3,4) show ?thesis by blast
qed

lemma spawned_marker:
  assumes "spawned cell v st st'"
  shows "\<exists>rect. map_of (cacheMarkers st') (cellToString cell) = Some rect \<and>
           readCache st' (popupCache st' rect) = v"
proof -
  from assms obtain cache rect where
    "cacheMarkers st' = AList.update (cellToString cell) rect (cacheMarkers st)"
    "popupCache st' = (popupCache st)(rect := cache)" "readCache st' cache = v"
    unfolding spawned_def by blast
  then show ?thesis by (simp add: update_conv')
qed

text \<open>
  Claim C1. (1) The first \<open>spawnCache\<close> for a cell, when the registry has no entry for
  its key, succeeds and appends the entry: the memento of the cache \<open>createdCache luck cell\<close>,
  which depends on the cell (and on \<open>luck\<close>) only, not on the state; the popup of the new
  marker shows that cache. (2) A \<open>spawnCache\<close> for a cell whose key has a non-empty memento
  that \<open>fromMomento\<close> reads as \<open>c\<close> (every memento the program saved is one) succeeds,
  leaves the registry as it is, and the popup of the new marker shows \<open>c\<close>: nothing is
  generated. (3) When a coin of a spawned cache is collected, the player moves to a
  location from which the cell is not visible and then to one from which it is
  (\<open>getVisibleCells\<close> returns at both), and the cell passes the spawn test, then both
  moves succeed, the first removes the cell's marker,
  the second installs a marker again, and the cache behind its popup holds exactly the
  coins the cache had, in their order, without the collected one.
\<close>

theorem memento_created_once:
  "(map_of (caches sa) (cellToString cell) = None \<longrightarrow>
      (\<exists>sa' rect.
         spawnCache luck cell sa = Inr sa' \<and>
         caches sa' = caches sa @ [(cellToString cell, toMomento (createdCache luck cell))] \<and>
         map_of (cacheMarkers sa') (cellToString cell) = Some rect \<and>
         readCache sa' (popupCache sa' rect) = createdCache luck cell)) \<and>
   (map_of (caches sb) (cellToString cell) = Some m \<and> m \<noteq> [] \<and> fromMomento m = Inr c \<longrightarrow>
      (\<exists>sb' rect.
         spawnCache luck cell sb = Inr sb' \<and> caches sb' = caches sb \<and>
         map_of (cacheMarkers sb') (cellToString cell) = Some rect \<and>
         readCache sb' (popupCache sb' rect) = c)) \<and>
   (registry_ok (caches st) \<and>
    map_of (cacheMarkers st) (cellToString cell) = Some rect0 \<and> popupCache st rect0 = cache \<and>
    cell_of (cacheHeap st cache) = cell \<and> coin \<in> set (coin_refs (cacheHeap st cache)) \<and>
    (\<exists>cells. getVisibleCells \<lparr>lat = fst away, lng = snd away\<rparr> = Some cells \<and> cell \<notin> set cells) \<and>
    (\<exists>cells. getVisibleCells \<lparr>lat = fst near, lng = snd near\<rparr> = Some cells \<and> cell \<in> set cells) \<and>
    luck (cellToString cell) < CACHE_SPAWN_PROBABILITY \<longrightarrow>
      (\<exists>st2 st3 rect.
         movePlayer luck away (collect coin cache st) = Inr st2 \<and>
         map_of (cacheMarkers st2) (cellToString cell) = None \<and>
         movePlayer luck near st2 = Inr st3 \<and>
         map_of (cacheMarkers st3) (cellToString cell) = Some rect \<and>
         readCache st3 (popupCache st3 rect) =
           \<lparr>cache_cell = cell,
            cache_coins = map (coinHeap st) (remove1 coin (coin_refs (cacheHeap st cache)))\<rparr>))"
proof (intro conjI impI)
  assume fresh: "map_of (caches sa) (cellToString cell) = None"
  then have "cellToString cell \<notin> fst ` set (caches sa)" by (simp add: map_of_eq_None_iff)
  then have app: "AList.update (cellToString cell) (toMomento (createdCache luck cell)) (caches sa) =
      caches sa @ [(cellToString cell, toMomento (createdCache luck cell))]"
    by (rule update_fresh)
  from fresh spawnCache_fresh [of sa cell luck] obtain sa' where
    "spawnCache luck cell sa = Inr sa'"
    "caches sa' = AList.update (cellToString cell) (toMomento (createdCache luck cell)) (caches sa)"
    "spawned cell (createdCache luck cell) sa sa'"
    by blast
  with spawned_marker [of cell "createdCache luck cell" sa sa'] app
  show "\<exists>sa' rect.
         spawnCache luck cell sa = Inr sa' \<and>
         caches sa' = caches sa @ [(cellToString cell, toMomento (createdCache luck cell))] \<and>
         map_of (cacheMarkers sa') (cellToString cell) = Some rect \<and>
         readCache sa' (popupCache sa' rect) = createdCache luck cell"
    by auto
next
  assume "map_of (caches sb) (cellToString cell) = Some m \<and> m \<noteq> [] \<and> fromMomento m = Inr c"
  then obtain sb' where
    "spawnCache luck cell sb = Inr sb'" "caches sb' = caches sb" "spawned cell c sb sb'"
    using spawnCache_found [of sb cell m c luck] by blast
  with spawned_marker [of cell c sb sb']
  show "\<exists>sb' rect.
         spawnCache luck cell sb = Inr sb' \<and> caches sb' = caches sb \<and>
         map_of (cacheMarkers sb') (cellToString cell) = Some rect \<and>
         readCache sb' (popupCache sb' rect) = c"
    by auto
next
  assume h: "registry_ok (caches st) \<and>
    map_of (cacheMarkers st) (cellToString cell) = Some rect0 \<and> popupCache st rect0 = cache \<and>
    cell_of (cacheHeap st cache) = cell \<and> coin \<in> set (coin_refs (cacheHeap st cache)) \<and>
    (\<exists>cells. getVisibleCells \<lparr>lat = fst away, lng = snd away\<rparr> = Some cells \<and> cell \<notin> set cells) \<and>
    (\<exists>cells. getVisibleCells \<lparr>lat = fst near, lng = snd near\<rparr> = Some cells \<and> cell \<in> set cells) \<and>
    luck (cellToString cell) < CACHE_SPAWN_PROBABILITY"
  then obtain va vn where "registry_ok (caches st)" "cell_of (cacheHeap st cache) = cell"
    "getVisibleCells \<lparr>lat = fst away, lng = snd away\<rparr> = Some va" "cell \<notin> set va"
    "getVisibleCells \<lparr>lat = fst near, lng = snd near\<rparr> = Some vn" "cell \<in> set vn"
    "luck (cellToString cell) < CACHE_SPAWN_PROBABILITY"
    by blast
  with respawn_after_collect [of st cache cell away va near vn luck coin]
  show "\<exists>st2 st3 rect.
         movePlayer luck away (collect coin cache st) = Inr st2 \<and>
         map_of (cacheMarkers st2) (cellToString cell) = None \<and>
         movePlayer luck near st2 = Inr st3 \<and>
         map_of (cacheMarkers st3) (cellToString cell) = Some rect \<and>
         readCache st3 (popupCache st3 rect) =
           \<lparr>cache_cell = cell,
            cache_coins = map (coinHeap st) (remove1 coin (coin_refs (cacheHeap st cache)))\<rparr>"
    by blast
qed

lemma example_registry_ok: "registry_ok (caches example_game)"
  by (simp add: registry_ok_def example_game_def)

lemma cell00_visibility:
  "\<exists>cells. getVisibleCells \<lparr>lat = 1, lng = 1\<rparr> = Some cells \<and> cell00 \<notin> set cells"
  "\<exists>cells. getVisibleCells \<lparr>lat = 0, lng = 0\<rparr> = Some cells \<and> cell00 \<in> set cells"
proof -
  have "of_int 9999 * 2 powi 0 \<le> 1 / TILE_DEGREES" by (simp add: TILE_DEGREES_eq)
  then have "of_int 9999 * 2 powi 0 \<le> round_double (1 / TILE_DEGREES)"
    by (rule round_double_ge) simp_all
  then have "9999 \<le> \<lfloor>js_divide 1 TILE_DEGREES\<rfloor>" by (simp add: js_divide_def le_floor_iff)
  moreover have "\<bar>lat \<lparr>lat = 1, lng = 1\<rparr> / TILE_DEGREES\<bar> \<le> 2 ^ 53 - 8"
    "\<bar>lng \<lparr>lat = 1, lng = 1\<rparr> / TILE_DEGREES\<bar> \<le> 2 ^ 53 - 8"
    by (simp_all add: TILE_DEGREES_eq)
  from getVisibleCells_set [OF this] obtain cells where
    "getVisibleCells \<lparr>lat = 1, lng = 1\<rparr> = Some cells"
    "set cells =
       {cell. \<lfloor>js_divide 1 TILE_DEGREES\<rfloor> - NEIGHBORHOOD_SIZE \<le> cell_i cell \<and>
              cell_i cell < \<lfloor>js_divide 1 TILE_DEGREES\<rfloor> + NEIGHBORHOOD_SIZE \<and>
              \<lfloor>js_divide 1 TILE_DEGREES\<rfloor> - NEIGHBORHOOD_SIZE \<le> cell_j cell \<and>
              cell_j cell < \<lfloor>js_divide 1 TILE_DEGREES\<rfloor> + NEIGHBORHOOD_SIZE}"
    by auto
  ultimately show "\<exists>cells. getVisibleCells \<lparr>lat = 1, lng = 1\<rparr> = Some cells \<and> cell00 \<notin> set cells"
    by (intro exI [of _ cells]) (simp add: cell00_def NEIGHBORHOOD_SIZE_def)
  have "\<bar>lat \<lparr>lat = 0, lng = 0\<rparr> / TILE_DEGREES\<bar> \<le> 2 ^ 53 - 8"
    "\<bar>lng \<lparr>lat = 0, lng = 0\<rparr> / TILE_DEGREES\<bar> \<le> 2 ^ 53 - 8"
    by simp_all
  from getVisibleCells_set [OF this] obtain cells where
    "getVisibleCells \<lparr>lat = 0, lng = 0\<rparr> = Some cells"
    "set cells =
       {cell. \<lfloor>js_divide 0 TILE_DEGREES\<rfloor> - NEIGHBORHOOD_SIZE \<le> cell_i cell \<and>
              cell_i cell < \<lfloor>js_divide 0 TILE_DEGREES\<rfloor> + NEIGHBORHOOD_SIZE \<and>
              \<lfloor>js_divide 0 TILE_DEGREES\<rfloor> - NEIGHBORHOOD_SIZE \<le> cell_j cell \<and>
              cell_j cell < \<lfloor>js_divide 0 TILE_DEGREES\<rfloor> + NEIGHBORHOOD_SIZE}"
    by auto
  then show "\<exists>cells. getVisibleCells \<lparr>lat = 0, lng = 0\<rparr> = Some cells \<and> cell00 \<in> set cells"
    by (intro exI [of _ cells]) (simp add: cell00_def NEIGHBORHOOD_SIZE_def js_divide_def)
qed

theorem memento_created_once_witness:
  "map_of (caches (initial_globals Map.empty)) (cellToString cell00) = None \<and>
   (\<exists>sa' rect.
      spawnCache (\<lambda>seed. 0) cell00 (initial_globals Map.empty) = Inr sa' \<and>
      caches sa' = [(cellToString cell00, toMomento (createdCache (\<lambda>seed. 0) cell00))] \<and>
      map_of (cacheMarkers sa') (cellToString cell00) = Some rect \<and>
      readCache sa' (popupCache sa' rect) =
        \<lparr>cache_cell = cell00, cache_coins = [\<lparr>coin_cell = cell00, coin_serial = 0\<rparr>]\<rparr>) \<and>
   map_of (caches example_game) (cellToString cell00) = Some (toMomento (readCache example_game 0)) \<and>
   fromMomento (toMomento (readCache example_game 0)) = Inr (readCache example_game 0) \<and>
   (\<exists>sb' rect.
      spawnCache (\<lambda>seed. 0) cell00 example_game = Inr sb' \<and> caches sb' = caches example_game \<and>
      map_of (cacheMarkers sb') (cellToString cell00) = Some rect \<and>
      readCache sb' (popupCache sb' rect) = readCache example_game 0) \<and>
   registry_ok (caches example_game) \<and>
   map_of (cacheMarkers example_game) (cellToString cell00) = Some 4 \<and>
   popupCache example_game 4 = 0 \<and> cell_of (cacheHeap example_game 0) = cell00 \<and>
   1 \<in> set (coin_refs (cacheHeap example_game 0)) \<and>
   (\<exists>cells. getVisibleCells \<lparr>lat = 1, lng = 1\<rparr> = Some cells \<and> cell00 \<notin> set cells) \<and>
   (\<exists>cells. getVisibleCells \<lparr>lat = 0, lng = 0\<rparr> = Some cells \<and> cell00 \<in> set cells) \<and>
   (0 :: rat) < CACHE_SPAWN_PROBABILITY \<and>
   (\<exists>st2 st3 rect.
      movePlayer (\<lambda>seed. 0) (1, 1) (collect 1 0 example_game) = Inr st2 \<and>
      map_of (cacheMarkers st2) (cellToString cell00) = None \<and>
      movePlayer (\<lambda>seed. 0) (0, 0) st2 = Inr st3 \<and>
      map_of (cacheMarkers st3) (cellToString cell00) = Some rect \<and>
      readCache st3 (popupCache st3 rect) =
        \<lparr>cache_cell = cell00, cache_coins = [\<lparr>coin_cell = cell00, coin_serial = 1\<rparr>]\<rparr>)"
proof -
  have a: "map_of (caches (initial_globals Map.empty)) (cellToString cell00) = None"
    by (simp add: initial_globals_def)
  have b: "map_of (caches example_game) (cellToString cell00) = Some (toMomento (readCache example_game 0))"
    "toMomento (readCache example_game 0) \<noteq> []"
    "fromMomento (toMomento (readCache example_game 0)) = Inr (readCache example_game 0)"
    by (simp_all add: fromMomento_inverse) (simp add: example_game_def cellToString_cell00 readCache_def)
  have c: "map_of (cacheMarkers example_game) (cellToString cell00) = Some 4"
    "popupCache example_game 4 = 0" "cell_of (cacheHeap example_game 0) = cell00"
    "1 \<in> set (coin_refs (cacheHeap example_game 0))"
    by (simp_all add: example_game_def cellToString_cell00)
  have p: "(0 :: rat) < CACHE_SPAWN_PROBABILITY" by (simp add: CACHE_SPAWN_PROBABILITY_eq)
  have created: "createdCache (\<lambda>seed. 0) cell00 =
      \<lparr>cache_cell = cell00, cache_coins = [\<lparr>coin_cell = cell00, coin_serial = 0\<rparr>]\<rparr>"
    by (simp add: createdCache_def numCoins_of_def js_times_def js_plus_def)
  have left: "map (coinHeap example_game) (remove1 1 (coin_refs (cacheHeap example_game 0))) =
      [\<lparr>coin_cell = cell00, coin_serial = 1\<rparr>]"
    by (simp add: example_game_def)
  note T = memento_created_once [of "initial_globals Map.empty" cell00 "\<lambda>seed. 0" example_game
      "toMomento (readCache example_game 0)" "readCache example_game 0" example_game 4 0 1
      "(1, 1)" "(0, 0)"]
  have empty: "caches (initial_globals Map.empty) = []" by (simp add: initial_globals_def)
  from T [THEN conjunct1, THEN mp, OF a]
  have A: "\<exists>sa' rect.
      spawnCache (\<lambda>seed. 0) cell00 (initial_globals Map.empty) = Inr sa' \<and>
      caches sa' = [(cellToString cell00, toMomento (createdCache (\<lambda>seed. 0) cell00))] \<and>
      map_of (cacheMarkers sa') (cellToString cell00) = Some rect \<and>
      readCache sa' (popupCache sa' rect) =
        \<lparr>cache_cell = cell00, cache_coins = [\<lparr>coin_cell = cell00, coin_serial = 0\<rparr>]\<rparr>"
    by (simp only: empty append_Nil created)
  from b have "map_of (caches example_game) (cellToString cell00) =
      Some (toMomento (readCache example_game 0)) \<and>
      toMomento (readCache example_game 0) \<noteq> [] \<and>
      fromMomento (toMomento (readCache example_game 0)) = Inr (readCache example_game 0)"
    by blast
  from T [THEN conjunct2, THEN conjunct1, THEN mp, OF this]
  have B: "\<exists>sb' rect.
      spawnCache (\<lambda>seed. 0) cell00 example_game = Inr sb' \<and> caches sb' = caches example_game \<and>
      map_of (cacheMarkers sb') (cellToString cell00) = Some rect \<and>
      readCache sb' (popupCache sb' rect) = readCache example_game 0" .
  from c p example_registry_ok cell00_visibility
  have "registry_ok (caches example_game) \<and>
    map_of (cacheMarkers example_game) (cellToString cell00) = Some 4 \<and>
    popupCache example_game 4 = 0 \<and>
    cell_of (cacheHeap example_game 0) = cell00 \<and> 1 \<in> set (coin_refs (cacheHeap example_game 0)) \<and>
    (\<exists>cells. getVisibleCells \<lparr>lat = fst (1 :: rat, 1 :: rat), lng = snd (1 :: rat, 1 :: rat)\<rparr> = Some cells \<and>
       cell00 \<notin> set cells) \<and>
    (\<exists>cells. getVisibleCells \<lparr>lat = fst (0 :: rat, 0 :: rat), lng = snd (0 :: rat, 0 :: rat)\<rparr> = Some cells \<and>
       cell00 \<in> set cells) \<and>
    0 < CACHE_SPAWN_PROBABILITY"
    by simp
  from T [THEN conjunct2, THEN conjunct2, THEN mp, OF this]
  have C: "\<exists>st2 st3 rect.
      movePlayer (\<lambda>seed. 0) (1, 1) (collect 1 0 example_game) = Inr st2 \<and>
      map_of (cacheMarkers st2) (cellToString cell00) = None \<and>
      movePlayer (\<lambda>seed. 0) (0, 0) st2 = Inr st3 \<and>
      map_of (cacheMarkers st3) (cellToString cell00) = Some rect \<and>
      readCache st3 (popupCache st3 rect) =
        \<lparr>cache_cell = cell00, cache_coins = [\<lparr>coin_cell = cell00, coin_serial = 1\<rparr>]\<rparr>"
    by (simp only: left)
  from a A b(1,3) B example_registry_ok c cell00_visibility p C
  show ?thesis by (intro conjI)
qed

section \<open>Generating the caches of a fresh registry\<close>

lemma update_fresh_keys:
  "k \<notin> fst ` set al \<Longrightarrow> map fst (AList.update k v al) = map fst al @ [k]"
  by (simp add: update_fresh)

lemma spawnCaches_fresh:
  assumes "distinct cells"
    and "\<forall>c \<in> set cells. cellToString c \<notin> fst ` set (caches st)"
    and "\<forall>c \<in> set cells. cellToString c \<notin> fst ` set (cacheMarkers st)"
  shows "\<exists>st'. spawnCaches luck cells st = Inr st' \<and>
           caches st' = caches st @ map (\<lambda>c. (cellToString c, toMomento (createdCache luck c))) cells \<and>
           map fst (cacheMarkers st') = map fst (cacheMarkers st) @ map cellToString cells \<and>
           localStorage st' ''caches'' =
             (if cells = [] then localStorage st ''caches''
              else Some (stringify (JArr (map (\<lambda>(k, m). JArr [JStr k, JStr m]) (caches st'))))) \<and>
           player_frame st st'"
  using assms
proof (induction cells arbitrary: st)
  case Nil
  then show ?case by simp
next
  case (Cons c cells)
  let ?key = "cellToString c" and ?m = "toMomento (createdCache luck c)"
  from Cons.prems(2) have fresh: "?key \<notin> fst ` set (caches st)" by simp
  then have "map_of (caches st) ?key = None" by (simp add: map_of_eq_None_iff)
  with spawnCache_fresh [of st c luck] obtain st1 where
    one: "spawnCache luck c st = Inr st1" "caches st1 = AList.update ?key ?m (caches st)"
         "spawned c (createdCache luck c) st st1"
    by blast
  from one(2) fresh have reg1: "caches st1 = caches st @ [(?key, ?m)]"
    by (simp add: update_fresh)
  from one(3) obtain rect where
    m1: "cacheMarkers st1 = AList.update ?key rect (cacheMarkers st)" and
    ls1: "localStorage st1 ''caches'' =
          Some (stringify (JArr (map (\<lambda>(k, m). JArr [JStr k, JStr m]) (caches st1))))"
    unfolding spawned_def by blast
  from Cons.prems(3) have "?key \<notin> fst ` set (cacheMarkers st)" by simp
  with m1 have keys1: "map fst (cacheMarkers st1) = map fst (cacheMarkers st) @ [?key]"
    by (simp add: update_fresh_keys)
  from Cons.prems(1) have d: "distinct cells" and notin: "c \<notin> set cells" by simp_all
  have f1: "\<forall>c' \<in> set cells. cellToString c' \<notin> fst ` set (caches st1)"
    using Cons.prems(2) notin by (auto simp: reg1)
  have "set (map fst (cacheMarkers st1)) = insert ?key (fst ` set (cacheMarkers st))"
    by (simp add: keys1)
  then have f2: "\<forall>c' \<in> set cells. cellToString c' \<notin> fst ` set (cacheMarkers st1)"
    using Cons.prems(3) notin by auto
  from Cons.IH [OF d f1 f2] obtain st' where
    rest: "spawnCaches luck cells st1 = Inr st'"
      "caches st' = caches st1 @ map (\<lambda>c. (cellToString c, toMomento (createdCache luck c))) cells"
      "map fst (cacheMarkers st') = map fst (cacheMarkers st1) @ map cellToString cells"
      "localStorage st' ''caches'' =
         (if cells = [] then localStorage st1 ''caches''
          else Some (stringify (JArr (map (\<lambda>(k, m). JArr [JStr k, JStr m]) (caches st')))))"
      "player_frame st1 st'"
    by blast
  have run: "spawnCaches luck (c # cells) st = Inr st'" by (simp add: one(1) rest(1))
  have reg: "caches st' = caches st @
      map (\<lambda>c. (cellToString c, toMomento (createdCache luck c))) (c # cells)"
    by (simp add: rest(2) reg1)
  have keys: "map fst (cacheMarkers st') = map fst (cacheMarkers st) @ map cellToString (c # cells)"
    by (simp add: rest(3) keys1)
  have ls: "localStorage st' ''caches'' =
      Some (stringify (JArr (map (\<lambda>(k, m). JArr [JStr k, JStr m]) (caches st'))))"
  proof (cases "cells = []")
    case True
    with rest(1) have "st' = st1" by simp
    with ls1 show ?thesis by simp
  next
    case False
    with rest(4) show ?thesis by simp
  qed
  have pf: "player_frame st st'"
    using spawned_player_frame [OF one(3)] rest(5) by (rule player_frame_trans)
  from run reg keys ls pf show ?case by simp
qed

section \<open>Reset\<close>

lemma load_nothing:
  assumes "localStorage st ''caches'' = None \<or> localStorage st ''caches'' = Some []"
    and "localStorage st ''inventory'' = None \<or> localStorage st ''inventory'' = Some []"
    and "localStorage st ''playerLocation'' = None \<or> localStorage st ''playerLocation'' = Some []"
  shows "loadLocalStorage st = Inr st"
  using assms
  by (auto simp: loadLocalStorage_def load_caches_def load_inventory_def load_playerLocation_def)

lemma reset_confirmed:
  "\<exists>st'. reset_click luck True st = Inr st' \<and>
     playerInventory st' = [] \<and>
     playerLocation st' = initialPlayerLocation \<and>
     playerMovementHistory st' = [initialPlayerLocation] \<and>
     caches st' =
       map (\<lambda>c. (cellToString c, toMomento (createdCache luck c)))
         (lucky_cells luck initialPlayerLocation) \<and>
     map fst (cacheMarkers st') = map cellToString (lucky_cells luck initialPlayerLocation) \<and>
     localStorage st' ''playerLocation'' = None \<and>
     localStorage st' ''inventory'' = Some ''[]'' \<and>
     localStorage st' ''caches'' =
       (if lucky_cells luck initialPlayerLocation = [] then None
        else Some (stringify (JArr (map (\<lambda>(k, m). JArr [JStr k, JStr m]) (caches st')))))"
proof -
  define s0 where "s0 = resetCaches (resetPlayerState initialPlayerLocation
      (initializeUI (st\<lparr>localStorage := Map.empty\<rparr>)))"
  have s0: "playerInventory s0 = []" "playerLocation s0 = initialPlayerLocation"
    "playerMovementHistory s0 = [initialPlayerLocation]" "caches s0 = []" "cacheMarkers s0 = []"
    "localStorage s0 = Map.empty"
    by (simp_all add: s0_def resetCaches_def resetPlayerState_def initializeUI_def)
  have load: "loadDataFromLocalStorage s0 = Inr s0"
    unfolding loadDataFromLocalStorage_def by (rule load_nothing) (simp_all add: s0)
  let ?cells = "lucky_cells luck initialPlayerLocation"
  from home_visible obtain visible where
    home: "getVisibleCells initialPlayerLocation = Some visible" "distinct visible" by blast
  then have visible: "getVisibleCells (playerLocation s0) = Some visible" by (simp add: s0)
  have new: "newCells_of luck visible
      (despawn (cacheMarkers s0) (map cellToString visible) s0) = ?cells"
    by (simp add: newCells_of_def lucky_cells_def home(1) s0 cellToString_def)
  have "distinct ?cells" by (simp add: lucky_cells_def home)
  from spawnCaches_fresh [OF this, of s0 luck] obtain st2 where
    sp: "spawnCaches luck ?cells s0 = Inr st2"
      "caches st2 = map (\<lambda>c. (cellToString c, toMomento (createdCache luck c))) ?cells"
      "map fst (cacheMarkers st2) = map cellToString ?cells"
      "localStorage st2 ''caches'' =
         (if ?cells = [] then None
          else Some (stringify (JArr (map (\<lambda>(k, m). JArr [JStr k, JStr m]) (caches st2)))))"
      "player_frame s0 st2"
    by (auto simp: s0)
  have upd: "updateCaches luck s0 = Inr st2"
    using sp(1) by (simp add: updateCaches_def Let_def visible new) (simp add: s0)
  have run: "reset_click luck True st = Inr (displayInventory st2)"
    by (simp add: reset_click_def initGame_def s0_def [symmetric] load upd)
  from sp(5) have pf: "playerInventory st2 = []" "playerLocation st2 = initialPlayerLocation"
    "playerMovementHistory st2 = [initialPlayerLocation]" "localStorage st2 ''playerLocation'' = None"
    by (simp_all add: player_frame_def s0)
  show ?thesis
    unfolding run using sp(2,3,4) pf
    by (simp add: displayInventory_def saveInventory_def)
qed

lemma lucky_cells_all: "lucky_cells (\<lambda>seed. 0) initialPlayerLocation \<noteq> []"
  using home_visible by (auto simp: lucky_cells_def CACHE_SPAWN_PROBABILITY_eq)

lemma lucky_cells_none: "lucky_cells (\<lambda>seed. 1) coord = []"
  by (simp add: lucky_cells_def CACHE_SPAWN_PROBABILITY_eq split: option.splits)

text \<open>
  Claim C7, as the code has it. A declined reset changes nothing. A confirmed reset
  succeeds from every state (so also with coins in the inventory and caches spawned):
  afterwards the inventory is empty, the player is at the home location and the movement
  history is that location alone, and the storage record \<^verbatim>\<open>"playerLocation"\<close> is absent.
  But \<open>initGame\<close> then settles the caches and displays the inventory: the registry holds
  the freshly generated caches of the visible cells around home that pass the spawn test,
  each with a marker, the record \<^verbatim>\<open>"caches"\<close> holds that registry (it is absent only when
  no cell passes), and the record \<^verbatim>\<open>"inventory"\<close> holds the text \<^verbatim>\<open>[]\<close>.
\<close>

theorem reset_game:
  "reset_click luck False st = Inr st \<and>
   (\<exists>st'. reset_click luck True st = Inr st' \<and>
      playerInventory st' = [] \<and>
      playerLocation st' = initialPlayerLocation \<and>
      playerMovementHistory st' = [initialPlayerLocation] \<and>
      caches st' =
        map (\<lambda>c. (cellToString c, toMomento (createdCache luck c)))
          (lucky_cells luck initialPlayerLocation) \<and>
      map fst (cacheMarkers st') = map cellToString (lucky_cells luck initialPlayerLocation) \<and>
      localStorage st' ''playerLocation'' = None \<and>
      localStorage st' ''inventory'' = Some ''[]'' \<and>
      localStorage st' ''caches'' =
        (if lucky_cells luck initialPlayerLocation = [] then None
         else Some (stringify (JArr (map (\<lambda>(k, m). JArr [JStr k, JStr m]) (caches st'))))))"
  using reset_confirmed [of luck st] by (simp add: reset_click_def)

theorem reset_game_witness:
  "playerInventory (collect 2 0 (collect 1 0 example_game)) = [1, 2] \<and>
   cacheMarkers (collect 2 0 (collect 1 0 example_game)) = [(''0,0'', 4)] \<and>
   reset_click (\<lambda>seed. 1) False (collect 2 0 (collect 1 0 example_game)) =
     Inr (collect 2 0 (collect 1 0 example_game)) \<and>
   (\<exists>st'. reset_click (\<lambda>seed. 1) True (collect 2 0 (collect 1 0 example_game)) = Inr st' \<and>
      playerInventory st' = [] \<and> playerLocation st' = initialPlayerLocation \<and>
      playerMovementHistory st' = [initialPlayerLocation] \<and>
      caches st' = [] \<and> cacheMarkers st' = [] \<and>
      localStorage st' ''playerLocation'' = None \<and>
      localStorage st' ''inventory'' = Some ''[]'' \<and>
      localStorage st' ''caches'' = None)"
proof -
  have "playerInventory (collect 2 0 (collect 1 0 example_game)) = [1, 2]"
    by (simp add: playerInventory_collect) (simp add: example_game_def)
  moreover have "cacheMarkers (collect 2 0 (collect 1 0 example_game)) = [(''0,0'', 4)]"
    by (simp add: example_game_def)
  ultimately show ?thesis
    using reset_game [of "\<lambda>seed. 1" "collect 2 0 (collect 1 0 example_game)"]
    by (simp add: lucky_cells_none)
qed

text \<open>
  The claim as stated fails. With a generator that lets every cell pass, a confirmed reset
  of the state with two coins in the inventory and one spawned cache leaves a registry
  that is not empty, a \<^verbatim>\<open>"caches"\<close> record and an \<^verbatim>\<open>"inventory"\<close> record.
\<close>

theorem reset_game_counterexample:
  "(case reset_click (\<lambda>seed. 0) True (collect 2 0 (collect 1 0 example_game)) of
      Inl e \<Rightarrow> False
    | Inr st' \<Rightarrow>
        caches st' \<noteq> [] \<and> localStorage st' ''caches'' \<noteq> None \<and>
        localStorage st' ''inventory'' = Some ''[]'')"
proof -
  from reset_confirmed [of "\<lambda>seed. 0" "collect 2 0 (collect 1 0 example_game)"]
  obtain st' where
    "reset_click (\<lambda>seed. 0) True (collect 2 0 (collect 1 0 example_game)) = Inr st'"
    "caches st' = map (\<lambda>c. (cellToString c, toMomento (createdCache (\<lambda>seed. 0) c)))
        (lucky_cells (\<lambda>seed. 0) initialPlayerLocation)"
    "localStorage st' ''inventory'' = Some ''[]''"
    "localStorage st' ''caches'' =
        (if lucky_cells (\<lambda>seed. 0) initialPlayerLocation = [] then None
         else Some (stringify (JArr (map (\<lambda>(k, m). JArr [JStr k, JStr m]) (caches st')))))"
    by blast
  then show ?thesis
    by (simp add: lucky_cells_all)
qed

section \<open>Loading the storage\<close>

lemma load_caches_keeps:
  assumes "load_caches st = Inr st'"
  shows "localStorage st' = localStorage st" "playerInventory st' = playerInventory st"
    "playerLocation st' = playerLocation st" "playerMovementHistory st' = playerMovementHistory st"
    "missing st ''caches'' \<Longrightarrow> st' = st"
  using assms
  by (auto simp: load_caches_def missing_def split: option.splits if_splits json.splits)

lemma load_inventory_keeps:
  assumes "load_inventory st = Inr st'"
  shows "localStorage st' = localStorage st" "caches st' = caches st"
    "playerLocation st' = playerLocation st" "playerMovementHistory st' = playerMovementHistory st"
    "missing st ''inventory'' \<Longrightarrow> st' = st"
  using assms
  by (auto simp: load_inventory_def missing_def newCoins_eq
      split: option.splits if_splits json.splits)

lemma load_playerLocation_keeps:
  assumes "load_playerLocation st = Inr st'"
  shows "localStorage st' = localStorage st" "caches st' = caches st"
    "playerInventory st' = playerInventory st"
    "missing st ''playerLocation'' \<Longrightarrow> st' = st"
  using assms
  by (auto simp: load_playerLocation_def missing_def split: option.splits if_splits json.splits)

lemma loadLocalStorage_parts:
  assumes "loadLocalStorage st = Inr st'"
  obtains st1 st2 where "load_caches st = Inr st1" "load_inventory st1 = Inr st2"
    "load_playerLocation st2 = Inr st'"
  using assms by (auto simp: loadLocalStorage_def split: sum.splits)

lemma loadLocalStorage_independent:
  assumes "loadLocalStorage st = Inr st'"
  shows "localStorage st' = localStorage st"
    "missing st ''caches'' \<Longrightarrow> caches st' = caches st"
    "missing st ''inventory'' \<Longrightarrow> playerInventory st' = playerInventory st"
    "missing st ''playerLocation'' \<Longrightarrow>
       playerLocation st' = playerLocation st \<and> playerMovementHistory st' = playerMovementHistory st"
proof -
  from assms obtain st1 st2 where
    l: "load_caches st = Inr st1" "load_inventory st1 = Inr st2" "load_playerLocation st2 = Inr st'"
    by (rule loadLocalStorage_parts)
  note k1 = load_caches_keeps [OF l(1)] and k2 = load_inventory_keeps [OF l(2)]
    and k3 = load_playerLocation_keeps [OF l(3)]
  show "localStorage st' = localStorage st" by (simp add: k1 k2 k3)
  show "caches st' = caches st" if "missing st ''caches''"
    using that k1(5) by (simp add: k2 k3)
  show "playerInventory st' = playerInventory st" if "missing st ''inventory''"
  proof -
    from that have "missing st1 ''inventory''" by (simp add: missing_def k1)
    with k2(5) show ?thesis by (simp add: k1 k3)
  qed
  show "playerLocation st' = playerLocation st \<and> playerMovementHistory st' = playerMovementHistory st"
    if "missing st ''playerLocation''"
  proof -
    from that have "missing st2 ''playerLocation''" by (simp add: missing_def k1 k2)
    with k3(4) show ?thesis by (simp add: k1 k2)
  qed
qed

lemma loadLocalStorage_corrupt:
  assumes "key = ''caches'' \<or> key = ''inventory'' \<or> key = ''playerLocation''"
    and "localStorage st key = Some text" and "text \<noteq> []" and "JSON_parse text = None"
  shows "\<exists>e. loadLocalStorage st = Inl e"
proof (cases "load_caches st")
  case (Inl e)
  then show ?thesis by (simp add: loadLocalStorage_def)
next
  case (Inr st1)
  note k1 = load_caches_keeps [OF Inr]
  show ?thesis
  proof (cases "load_inventory st1")
    case (Inl e)
    with Inr show ?thesis by (simp add: loadLocalStorage_def)
  next
    case st2: (Inr st2)
    note k2 = load_inventory_keeps [OF st2]
    from assms(1) show ?thesis
    proof (elim disjE)
      assume "key = ''caches''"
      with assms(2-4) have "load_caches st = Inl SyntaxError" by (simp add: load_caches_def)
      with Inr show ?thesis by simp
    next
      assume "key = ''inventory''"
      with assms(2-4) have "load_inventory st1 = Inl SyntaxError"
        by (simp add: load_inventory_def k1)
      with st2 show ?thesis by simp
    next
      assume "key = ''playerLocation''"
      with assms(2-4) have "load_playerLocation st2 = Inl SyntaxError"
        by (simp add: load_playerLocation_def k1 k2)
      with Inr st2 show ?thesis by (simp add: loadLocalStorage_def)
    qed
  qed
qed

lemma JSON_parse_open_brace: "JSON_parse ''{'' = None"
  by (simp add: JSON_parse_def)

lemma JSON_parse_empty_array: "JSON_parse ''[]'' = Some (JArr [])"
  by (simp add: JSON_parse_def numeral_2_eq_2)

lemma loadLocalStorage_empty_history:
  assumes "localStorage st ''playerLocation'' = Some ''[]''"
  shows "\<exists>e. loadLocalStorage st = Inl e"
proof (cases "load_caches st")
  case (Inl e)
  then show ?thesis by (simp add: loadLocalStorage_def)
next
  case (Inr st1)
  note k1 = load_caches_keeps [OF Inr]
  show ?thesis
  proof (cases "load_inventory st1")
    case (Inl e)
    with Inr show ?thesis by (simp add: loadLocalStorage_def)
  next
    case st2: (Inr st2)
    note k2 = load_inventory_keeps [OF st2]
    from assms have "load_playerLocation st2 = Inl TypeError"
      by (simp add: load_playerLocation_def k1 k2 JSON_parse_empty_array)
    with Inr st2 show ?thesis by (simp add: loadLocalStorage_def)
  qed
qed

lemma updateCaches_player_frame: "updateCaches luck st = Inr st' \<Longrightarrow> player_frame st st'"
proof -
  assume run: "updateCaches luck st = Inr st'"
  then obtain visible where visible: "getVisibleCells (playerLocation st) = Some visible"
    by (cases "getVisibleCells (playerLocation st)") (simp_all add: updateCaches_def)
  from run have "player_frame (despawn (cacheMarkers st) (map cellToString visible) st) st'"
    unfolding updateCaches_def Let_def visible option.case by (rule spawnCaches_player_frame)
  then show ?thesis by (simp add: player_frame_def)
qed

lemma initGame_reset_fields:
  "localStorage (resetCaches (resetPlayerState initialPlayerLocation (initializeUI st))) =
     localStorage st"
  "playerLocation (resetCaches (resetPlayerState initialPlayerLocation (initializeUI st))) =
     initialPlayerLocation"
  "playerMovementHistory (resetCaches (resetPlayerState initialPlayerLocation (initializeUI st))) =
     [initialPlayerLocation]"
  by (simp_all add: resetCaches_def resetPlayerState_def initializeUI_def)

lemma initGame_home:
  assumes "missing st ''playerLocation''" and "initGame luck st = Inr st'"
  shows "playerLocation st' = initialPlayerLocation \<and>
         playerMovementHistory st' = [initialPlayerLocation]"
proof -
  let ?s0 = "resetCaches (resetPlayerState initialPlayerLocation (initializeUI st))"
  from assms(2) obtain s1 s2 where
    l: "loadLocalStorage ?s0 = Inr s1" and u: "updateCaches luck s1 = Inr s2" and
    d: "st' = displayInventory s2"
    by (auto simp: initGame_def loadDataFromLocalStorage_def split: sum.splits)
  from assms(1) have "missing ?s0 ''playerLocation''"
    by (simp add: missing_def initGame_reset_fields)
  from loadLocalStorage_independent(4) [OF l this]
  have "playerLocation s1 = initialPlayerLocation" "playerMovementHistory s1 = [initialPlayerLocation]"
    by (simp_all add: initGame_reset_fields)
  with updateCaches_player_frame [OF u] show ?thesis
    by (simp add: d player_frame_def displayInventory_def saveInventory_def)
qed

lemma initGame_corrupt:
  assumes "key = ''caches'' \<or> key = ''inventory'' \<or> key = ''playerLocation''"
    and "localStorage st key = Some data" and "data \<noteq> []" and "JSON_parse data = None"
  shows "\<exists>e. initGame luck st = Inl e"
proof -
  let ?s0 = "resetCaches (resetPlayerState initialPlayerLocation (initializeUI st))"
  from assms(2) have "localStorage ?s0 key = Some data" by (simp add: initGame_reset_fields)
  from loadLocalStorage_corrupt [OF assms(1) this assms(3,4)]
  show ?thesis by (auto simp: initGame_def loadDataFromLocalStorage_def)
qed

lemma JSON_parse_inventory_text:
  "JSON_parse (inventory_text coins) = Some (JArr (map coin_json coins))"
  unfolding inventory_text_def by (rule JSON_parse_stringify) simp

text \<open>
  Claim C6, as the code has it. A storage record that is missing (\<^verbatim>\<open>null\<close>, or the empty
  string) is skipped: when all three are missing, loading changes nothing; whenever
  loading returns, each missing record has left its part of the state as it was, whatever
  the other two records hold; and when the history record is missing, a successful
  \<open>initGame\<close> ends with the player at the home location. A record that is present is parsed
  without a guard: when one of the three records is not JSON, \<open>loadLocalStorage\<close> and
  \<open>initGame\<close> end with an exception, and so does \<open>loadLocalStorage\<close> when the history
  record is the empty array.
\<close>

theorem load_missing_records:
  "(missing sa ''caches'' \<and> missing sa ''inventory'' \<and> missing sa ''playerLocation'' \<longrightarrow>
      loadLocalStorage sa = Inr sa) \<and>
   (loadLocalStorage sb = Inr sb' \<longrightarrow>
      (missing sb ''caches'' \<longrightarrow> caches sb' = caches sb) \<and>
      (missing sb ''inventory'' \<longrightarrow> playerInventory sb' = playerInventory sb) \<and>
      (missing sb ''playerLocation'' \<longrightarrow>
         playerLocation sb' = playerLocation sb \<and>
         playerMovementHistory sb' = playerMovementHistory sb)) \<and>
   (missing sc ''playerLocation'' \<and> initGame luck sc = Inr sc' \<longrightarrow>
      playerLocation sc' = initialPlayerLocation \<and>
      playerMovementHistory sc' = [initialPlayerLocation]) \<and>
   ((key = ''caches'' \<or> key = ''inventory'' \<or> key = ''playerLocation'') \<and>
    localStorage sd key = Some data \<and> data \<noteq> [] \<and> JSON_parse data = None \<longrightarrow>
      (\<exists>e. loadLocalStorage sd = Inl e) \<and> (\<exists>e. initGame luck sd = Inl e)) \<and>
   (localStorage se ''playerLocation'' = Some ''[]'' \<longrightarrow> (\<exists>e. loadLocalStorage se = Inl e))"
proof (intro conjI impI)
  assume "missing sa ''caches'' \<and> missing sa ''inventory'' \<and> missing sa ''playerLocation''"
  then show "loadLocalStorage sa = Inr sa"
    by (intro load_nothing) (simp_all add: missing_def)
next
  assume "loadLocalStorage sb = Inr sb'" and "missing sb ''caches''"
  then show "caches sb' = caches sb" by (rule loadLocalStorage_independent(2))
next
  assume "loadLocalStorage sb = Inr sb'" and "missing sb ''inventory''"
  then show "playerInventory sb' = playerInventory sb" by (rule loadLocalStorage_independent(3))
next
  assume "loadLocalStorage sb = Inr sb'" and "missing sb ''playerLocation''"
  from loadLocalStorage_independent(4) [OF this]
  show "playerLocation sb' = playerLocation sb" by simp
next
  assume "loadLocalStorage sb = Inr sb'" and "missing sb ''playerLocation''"
  from loadLocalStorage_independent(4) [OF this]
  show "playerMovementHistory sb' = playerMovementHistory sb" by simp
next
  assume h: "missing sc ''playerLocation'' \<and> initGame luck sc = Inr sc'"
  with initGame_home [of sc luck sc'] show "playerLocation sc' = initialPlayerLocation" by simp
  from h initGame_home [of sc luck sc']
  show "playerMovementHistory sc' = [initialPlayerLocation]" by simp
next
  assume h: "(key = ''caches'' \<or> key = ''inventory'' \<or> key = ''playerLocation'') \<and>
    localStorage sd key = Some data \<and> data \<noteq> [] \<and> JSON_parse data = None"
  then have k: "key = ''caches'' \<or> key = ''inventory'' \<or> key = ''playerLocation''"
    and d: "localStorage sd key = Some data" "data \<noteq> []" "JSON_parse data = None"
    by simp_all
  from k d show "\<exists>e. loadLocalStorage sd = Inl e" by (rule loadLocalStorage_corrupt)
  from k d show "\<exists>e. initGame luck sd = Inl e" by (rule initGame_corrupt)
next
  assume "localStorage se ''playerLocation'' = Some ''[]''"
  then show "\<exists>e. loadLocalStorage se = Inl e" by (rule loadLocalStorage_empty_history)
qed

text \<open>
  The claim as stated fails: a \<^verbatim>\<open>"caches"\<close> record that is not JSON makes loading and the
  whole initialisation end with the \<^verbatim>\<open>SyntaxError\<close> of \<^verbatim>\<open>JSON.parse\<close>, and a history record
  holding the empty array makes them end with a \<^verbatim>\<open>TypeError\<close>, instead of the fall back
  to the home location.
\<close>

theorem load_corrupt_counterexample:
  "loadLocalStorage (initial_globals [''caches'' \<mapsto> ''{'']) = Inl SyntaxError \<and>
   initGame (\<lambda>seed. 1) (initial_globals [''caches'' \<mapsto> ''{'']) = Inl SyntaxError \<and>
   loadLocalStorage (initial_globals [''playerLocation'' \<mapsto> ''[]'']) = Inl TypeError \<and>
   initGame (\<lambda>seed. 1) (initial_globals [''playerLocation'' \<mapsto> ''[]'']) = Inl TypeError"
  by (simp add: loadLocalStorage_def load_caches_def load_inventory_def load_playerLocation_def
      initGame_def loadDataFromLocalStorage_def resetCaches_def resetPlayerState_def
      initializeUI_def initial_globals_def JSON_parse_open_brace JSON_parse_empty_array)

theorem load_missing_records_witness:
  "missing (initial_globals Map.empty) ''caches'' \<and>
   missing (initial_globals Map.empty) ''inventory'' \<and>
   missing (initial_globals Map.empty) ''playerLocation'' \<and>
   loadLocalStorage (initial_globals Map.empty) = Inr (initial_globals Map.empty) \<and>
   missing (initial_globals
     [''inventory'' \<mapsto> inventory_text [\<lparr>coin_cell = cell00, coin_serial = 0\<rparr>]])
     ''caches'' \<and>
   missing (initial_globals
     [''inventory'' \<mapsto> inventory_text [\<lparr>coin_cell = cell00, coin_serial = 0\<rparr>]])
     ''playerLocation'' \<and>
   (\<exists>sb'. loadLocalStorage (initial_globals
        [''inventory'' \<mapsto> inventory_text [\<lparr>coin_cell = cell00, coin_serial = 0\<rparr>]]) =
          Inr sb' \<and>
      map (coinHeap sb') (playerInventory sb') = [\<lparr>coin_cell = cell00, coin_serial = 0\<rparr>] \<and>
      caches sb' = [] \<and> playerLocation sb' = initialPlayerLocation \<and>
      playerMovementHistory sb' = []) \<and>
   (\<exists>sc'. initGame (\<lambda>seed. 1) (initial_globals Map.empty) = Inr sc' \<and>
      playerLocation sc' = initialPlayerLocation \<and>
      playerMovementHistory sc' = [initialPlayerLocation]) \<and>
   localStorage (initial_globals [''caches'' \<mapsto> ''{'']) ''caches'' = Some ''{'' \<and>
   JSON_parse ''{'' = None \<and>
   (\<exists>e. loadLocalStorage (initial_globals [''caches'' \<mapsto> ''{'']) = Inl e) \<and>
   (\<exists>e. initGame (\<lambda>seed. 1) (initial_globals [''caches'' \<mapsto> ''{'']) = Inl e) \<and>
   localStorage (initial_globals [''playerLocation'' \<mapsto> ''[]'']) ''playerLocation'' = Some ''[]'' \<and>
   (\<exists>e. loadLocalStorage (initial_globals [''playerLocation'' \<mapsto> ''[]'']) = Inl e)"
proof -
  let ?coin = "\<lparr>coin_cell = cell00, coin_serial = 0\<rparr>"
  let ?s = "initial_globals Map.empty"
  let ?si = "initial_globals [''inventory'' \<mapsto> inventory_text [?coin]]"
  let ?sd = "initial_globals [''caches'' \<mapsto> ''{'']"
  let ?se = "initial_globals [''playerLocation'' \<mapsto> ''[]'']"
  have m: "missing ?s ''caches''" "missing ?s ''inventory''" "missing ?s ''playerLocation''"
    by (simp_all add: missing_def initial_globals_def)
  have mi: "missing ?si ''caches''" "missing ?si ''playerLocation''"
    by (simp_all add: missing_def initial_globals_def)
  have parse: "JSON_parse (inventory_text [?coin]) = Some (JArr [coin_json ?coin])"
    by (simp add: JSON_parse_inventory_text)
  have nonempty: "inventory_text [?coin] \<noteq> []"
    by (simp add: inventory_text_def)
  have "load_inventory ?si =
      Inr (?si\<lparr>coinHeap := (coinHeap ?si)(0 := ?coin), nextRef := 1, playerInventory := [0]\<rparr>)"
    by (simp add: load_inventory_def parse nonempty newCoin_def initial_globals_def)
  then obtain sb' where li: "loadLocalStorage ?si = Inr sb'"
    and inv: "map (coinHeap sb') (playerInventory sb') = [?coin]"
    by (simp add: loadLocalStorage_def load_caches_def load_playerLocation_def initial_globals_def)
  have "?s\<lparr>localStorage := Map.empty\<rparr> = ?s" by (simp add: initial_globals_def)
  with reset_confirmed [of "\<lambda>seed. 1" ?s] obtain sc' where
    run: "initGame (\<lambda>seed. 1) ?s = Inr sc'" by (auto simp: reset_click_def)
  have d: "localStorage ?sd ''caches'' = Some ''{''" "localStorage ?se ''playerLocation'' = Some ''[]''"
    by (simp_all add: initial_globals_def)
  note T = load_missing_records
  have A: "loadLocalStorage ?s = Inr ?s"
    using T [of ?s, THEN conjunct1] m by simp
  have B: "caches sb' = [] \<and> playerLocation sb' = initialPlayerLocation \<and>
      playerMovementHistory sb' = []"
    using T [of _ ?si sb', THEN conjunct2, THEN conjunct1] li mi
    by (simp add: initial_globals_def)
  have C: "playerLocation sc' = initialPlayerLocation \<and>
      playerMovementHistory sc' = [initialPlayerLocation]"
    using T [of _ _ _ ?s "\<lambda>seed. 1" sc', THEN conjunct2, THEN conjunct2, THEN conjunct1] run m
    by simp
  have D: "(\<exists>e. loadLocalStorage ?sd = Inl e) \<and> (\<exists>e. initGame (\<lambda>seed. 1) ?sd = Inl e)"
    using T [of _ _ _ _ "\<lambda>seed. 1" _ "''caches''" ?sd "''{''", THEN conjunct2, THEN conjunct2,
        THEN conjunct2, THEN conjunct1] d JSON_parse_open_brace
    by simp
  have E: "\<exists>e. loadLocalStorage ?se = Inl e"
    using T [of _ _ _ _ _ _ _ _ _ ?se, THEN conjunct2, THEN conjunct2, THEN conjunct2,
        THEN conjunct2] d
    by simp
  have P1: "\<exists>sb'. loadLocalStorage ?si = Inr sb' \<and>
      map (coinHeap sb') (playerInventory sb') = [?coin] \<and>
      caches sb' = [] \<and> playerLocation sb' = initialPlayerLocation \<and>
      playerMovementHistory sb' = []"
    using li inv B by (intro exI [of _ sb']) simp
  have P3: "\<exists>sc'. initGame (\<lambda>seed. 1) ?s = Inr sc' \<and>
      playerLocation sc' = initialPlayerLocation \<and>
      playerMovementHistory sc' = [initialPlayerLocation]"
    using run C by (intro exI [of _ sc']) simp
  from D have D1: "\<exists>e. loadLocalStorage ?sd = Inl e" and D2: "\<exists>e. initGame (\<lambda>seed. 1) ?sd = Inl e"
    by simp_all
  show ?thesis
    by (intro conjI) (rule m mi A P1 P3 d JSON_parse_open_brace D1 D2 E)+
qed

end
